theory Spec2Isabelle
  imports Main "HOL-Library.Word" "HOL-Library.Multiset"
begin

section \<open>Duplicate finder: package process of FindDuplicate (src/main.go)\<close>

text \<open>
  The Go package walks a directory tree in several goroutines, sends one value of
  \<^verbatim>\<open>FindDuplicate\<close> per directory or file over an unbuffered channel, and a single
  goroutine (\<^verbatim>\<open>StartDuplicateFind\<close>) looks every file up in a map keyed by name and
  size. Go's fixed-width integers are words: \<^verbatim>\<open>int16\<close>, \<^verbatim>\<open>uint16\<close> and
  \<^verbatim>\<open>int64\<close> wrap around, and signed comparison is \<open><s\<close>.
\<close>

type_synonym int16 = "16 word"
type_synonym uint16 = "16 word"
type_synonym int64 = "64 word"

subsection \<open>Options and the worker counter\<close>

text \<open>
  \<^verbatim>\<open>type Options struct\<close>. The mutex \<^verbatim>\<open>mux\<close> makes every method one atomic
  transition of the record, which is how the methods are modelled; the logger
  \<^verbatim>\<open>hLog\<close> is an output device and appears as the report lists below.
\<close>

record Options =
  mustConfirmationDelete :: bool
  needRemoveDuplicate :: bool
  maxCountThread :: int16
  currentThreadCount :: int16

text \<open>\<^verbatim>\<open>OptionsNew\<close>: the counter starts at Go's zero value.\<close>

definition OptionsNew :: "bool \<Rightarrow> bool \<Rightarrow> int16 \<Rightarrow> Options" where
  "OptionsNew confirm remove maxThreads =
     \<lparr>mustConfirmationDelete = confirm, needRemoveDuplicate = remove,
      maxCountThread = maxThreads, currentThreadCount = 0\<rparr>"

definition CurrentThreadCountSet :: "int16 \<Rightarrow> Options \<Rightarrow> Options" where
  "CurrentThreadCountSet val opts = opts\<lparr>currentThreadCount := val\<rparr>"

text \<open>
  \<^verbatim>\<open>func (o *Options) AddWorker() bool\<close>: the returned flag and the updated struct.
\<close>

definition AddWorker :: "Options \<Rightarrow> bool \<times> Options" where
  "AddWorker opts =
     (if maxCountThread opts = - 1 \<or> currentThreadCount opts <s maxCountThread opts
      then (True, opts\<lparr>currentThreadCount := currentThreadCount opts + 1\<rparr>)
      else (False, opts))"

text \<open>\<^verbatim>\<open>func (o *Options) RemoveWorker()\<close>: an unguarded decrement.\<close>

definition RemoveWorker :: "Options \<Rightarrow> Options" where
  "RemoveWorker opts = opts\<lparr>currentThreadCount := currentThreadCount opts - 1\<rparr>"

text \<open>
  A sequence of calls on one \<^verbatim>\<open>Options\<close> value. \<open>calls\<close> returns the struct
  after the whole sequence.
\<close>

datatype budget_call = Acquire | Release

fun call :: "Options \<Rightarrow> budget_call \<Rightarrow> Options" where
  "call opts Acquire = snd (AddWorker opts)"
| "call opts Release = RemoveWorker opts"

fun calls :: "Options \<Rightarrow> budget_call list \<Rightarrow> Options" where
  "calls opts [] = opts"
| "calls opts (c # cs) = calls (call opts c) cs"

text \<open>
  The discipline of the callers in \<^verbatim>\<open>StartContentChanges\<close>: \<^verbatim>\<open>RemoveWorker\<close> is
  deferred only in a goroutine that a successful \<^verbatim>\<open>AddWorker\<close> started, so every
  release is preceded by its own grant. \<open>paired opts held cs\<close> checks that, with
  \<open>held\<close> the number of grants not yet released.
\<close>

fun paired :: "Options \<Rightarrow> nat \<Rightarrow> budget_call list \<Rightarrow> bool" where
  "paired opts held [] = True"
| "paired opts held (Acquire # cs) =
     (if fst (AddWorker opts) then paired (snd (AddWorker opts)) (Suc held) cs
      else paired (snd (AddWorker opts)) held cs)"
| "paired opts held (Release # cs) =
     (0 < held \<and> paired (RemoveWorker opts) (held - 1) cs)"

text \<open>
  The largest number of grants held at once in the course of a sequence of calls that
  starts with \<open>held\<close> of them: in \<^verbatim>\<open>StartContentChanges\<close>, the largest number of
  worker goroutines alive at one moment.
\<close>

fun most_held :: "Options \<Rightarrow> nat \<Rightarrow> budget_call list \<Rightarrow> nat" where
  "most_held opts held [] = held"
| "most_held opts held (Acquire # cs) =
     (if fst (AddWorker opts) then max held (most_held (snd (AddWorker opts)) (Suc held) cs)
      else max held (most_held (snd (AddWorker opts)) held cs))"
| "most_held opts held (Release # cs) =
     max held (most_held (RemoveWorker opts) (held - 1) cs)"

subsection \<open>Events and the identity key\<close>

text \<open>\<^verbatim>\<open>type FindDuplicate struct\<close>, the value sent over the channel.\<close>

record FindDuplicate =
  DirName :: string
  FileName :: string
  FileSize :: int64
  workerId :: uint16

text \<open>
  \<^verbatim>\<open>fmt.Sprintf("%s_%d", fd.FileName, fd.FileSize)\<close>. The verb \<^verbatim>\<open>%d\<close> prints a
  signed integer in decimal, with a leading minus sign when it is negative and no
  padding; \<^verbatim>\<open>%s\<close> copies the bytes of the string.
\<close>

fun decimal_nat :: "nat \<Rightarrow> string" where
  "decimal_nat n =
     (if n < 10 then [char_of (48 + n)]
      else decimal_nat (n div 10) @ [char_of (48 + n mod 10)])"

declare decimal_nat.simps [simp del]

definition Sprintf_d :: "int \<Rightarrow> string" where
  "Sprintf_d i = (if i < 0 then CHR ''-'' # decimal_nat (nat (- i)) else decimal_nat (nat i))"

definition sMapKey :: "FindDuplicate \<Rightarrow> string" where
  "sMapKey fd = FileName fd @ ''_'' @ Sprintf_d (sint (FileSize fd))"

text \<open>\<^verbatim>\<open>fd.DirName+"/"+fd.FileName\<close>, the path every message prints.\<close>

definition path :: "FindDuplicate \<Rightarrow> string" where
  "path fd = DirName fd @ ''/'' @ FileName fd"

text \<open>
  The two struct literals of \<^verbatim>\<open>StartContentChanges\<close>: line 326,
  \<^verbatim>\<open>FindDuplicate{DirName: sDir.Name()}\<close>, and line 376,
  \<^verbatim>\<open>FindDuplicate{DirName: sDir.Name(), FileName: st.Name(), FileSize: st.Size()}\<close>.
  A field that a literal leaves out has Go's zero value.
\<close>

definition dir_event :: "string \<Rightarrow> FindDuplicate" where
  "dir_event d = \<lparr>DirName = d, FileName = [], FileSize = 0, workerId = 0\<rparr>"

definition file_event :: "string \<Rightarrow> string \<Rightarrow> int64 \<Rightarrow> FindDuplicate" where
  "file_event d n sz = \<lparr>DirName = d, FileName = n, FileSize = sz, workerId = 0\<rparr>"

text \<open>The number a string of decimal digits denotes; used to invert \<open>decimal_nat\<close>.\<close>

fun digits_value :: "string \<Rightarrow> nat" where
  "digits_value cs = foldl (\<lambda>a c. 10 * a + (of_char c - 48)) 0 cs"

subsection \<open>The aggregator \<^verbatim>\<open>StartDuplicateFind\<close>\<close>

text \<open>
  What the aggregator writes, one constructor per logging or printing site of
  \<^verbatim>\<open>StartDuplicateFind\<close> (the Russian texts are given in translation):
  \<^item> \<open>Info_start\<close>, \<open>Info_stop\<close>: the two \<^verbatim>\<open>Info\<close> lines around the loop (lines 223, 225);
  \<^item> \<open>Debug_directory\<close>: "processing directory (workerId: %d): %s" (line 233);
  \<^item> \<open>Debug_found\<close>: "file found: %s" (line 237);
  \<^item> \<open>Debug_duplicate\<close>: "duplicate found. File: %s (size: %d)" (line 244);
  \<^item> \<open>Ask_delete\<close>: "delete file %s (size: %d)? (y, n)" (lines 248, 249);
  \<^item> \<open>Confirmed_deleted\<close>: "file %s deleted!" after the answer y (lines 259, 260);
  \<^item> \<open>Skipped\<close>: "skip" after the answer n (lines 265, 266);
  \<^item> \<open>Invalid_input\<close>: "wrong input. Repeat (y/n):" (lines 270, 271);
  \<^item> \<open>File_deleted\<close>: "file %s deleted!" of the branch without a prompt (lines 278, 279).
\<close>

datatype report =
    Info_start
  | Info_stop
  | Debug_directory uint16 string
  | Debug_found string
  | Debug_duplicate string int64
  | Ask_delete string int64
  | Confirmed_deleted string
  | Skipped
  | Invalid_input
  | File_deleted string

text \<open>
  \<^verbatim>\<open>bufio.Scanner\<close> over standard input, as \<^verbatim>\<open>bufio.NewScanner\<close> builds it: the
  split function \<^verbatim>\<open>ScanLines\<close> and a buffer that grows to \<^verbatim>\<open>MaxScanTokenSize\<close>
  (64 * 1024) bytes and no further. The input \<open>src\<close> is the list of the lines still to
  come, each without its newline, and the end of the list is the end of the input.
  (\<^verbatim>\<open>ScanLines\<close> also drops a carriage return before the newline; the lines here are
  taken to end in a bare newline.)
  \<^item> A line that fits the buffer together with its newline, so one of fewer than
    \<^verbatim>\<open>MaxScanTokenSize\<close> bytes, becomes the token and \<^verbatim>\<open>Scan\<close> answers true.
  \<^item> At a longer line the buffer fills up before a newline is seen: \<^verbatim>\<open>Scan\<close> sets the
    error \<^verbatim>\<open>ErrTooLong\<close> and answers false. The scanner reads no more after an error:
    the next \<^verbatim>\<open>Scan\<close> hands out the bytes in the buffer (\<open>buf\<close>) as a last token, and
    every later one answers false.
  \<^item> At the end of the input \<^verbatim>\<open>Scan\<close> answers false, as often as it is called.

  \<open>scan_err\<close> tells that the scanner has stopped reading, by \<^verbatim>\<open>ErrTooLong\<close> or at the end of
  the input. \<^verbatim>\<open>Text\<close> is the field \<open>tok\<close>.
\<close>

definition MaxScanTokenSize :: nat where
  "MaxScanTokenSize = 65536"

record Scanner =
  src :: "string list"
  tok :: string
  buf :: string
  scan_err :: bool

definition NewScanner :: "string list \<Rightarrow> Scanner" where
  "NewScanner input = \<lparr>src = input, tok = [], buf = [], scan_err = False\<rparr>"

definition Scan :: "Scanner \<Rightarrow> bool \<times> Scanner" where
  "Scan scanner =
     (if scan_err scanner then
        (if buf scanner = [] then (False, scanner\<lparr>tok := []\<rparr>)
         else (True, scanner\<lparr>tok := buf scanner, buf := []\<rparr>))
      else
        (case src scanner of
           [] \<Rightarrow> (False, scanner\<lparr>tok := [], buf := [], scan_err := True\<rparr>)
         | l # ls \<Rightarrow>
             if length l < MaxScanTokenSize then (True, scanner\<lparr>src := ls, tok := l\<rparr>)
             else (False, scanner\<lparr>src := drop MaxScanTokenSize l # ls, tok := [],
                                  buf := take MaxScanTokenSize l, scan_err := True\<rparr>)))"

definition Text :: "Scanner \<Rightarrow> string" where
  "Text scanner = tok scanner"

text \<open>
  The loop \<^verbatim>\<open>for fl { for scanner.Scan() { switch txt {...}; break } }\<close> of lines
  253 to 276. The inner \<^verbatim>\<open>for\<close> runs its body at most once (it ends in
  \<^verbatim>\<open>break\<close>), and not at all when \<^verbatim>\<open>Scan\<close> answers false; in both cases control
  returns to the test of \<^verbatim>\<open>fl\<close>; the error of the scanner is never looked at. The
  loop need not end, so the function is partial: \<open>None\<close> is the run that never leaves
  the loop.
\<close>

partial_function (option) confirm_loop ::
  "FindDuplicate \<Rightarrow> bool \<Rightarrow> Scanner \<Rightarrow> report list \<Rightarrow> (Scanner \<times> report list) option"
where
  "confirm_loop fd fl scanner out =
     (if fl then
        (case Scan scanner of
           (got, scanner') \<Rightarrow>
             if got then
               (let txt = Text scanner' in
                if txt = ''y'' then
                  confirm_loop fd False scanner' (out @ [Confirmed_deleted (path fd)])
                else if txt = ''n'' then
                  confirm_loop fd False scanner' (out @ [Skipped])
                else
                  confirm_loop fd fl scanner' (out @ [Invalid_input]))
             else confirm_loop fd fl scanner' out)
      else Some (scanner, out))"

declare confirm_loop.simps [code]

text \<open>
  The state of the aggregator goroutine: the map \<^verbatim>\<open>mapFiles\<close> (a set of keys, its
  values are empty structs), standard input, and everything written so far.

  Every prompt builds a scanner of its own (line 251) and drops it when the prompt is
  answered. \<open>stdin\<close> is the list of the lines that these scanners are still to meet, in
  order. On a terminal that is every line typed. When standard input is a pipe or a file
  a scanner reads ahead of the line it hands out, and what it has read and not handed
  out is gone with it: such lines reach no scanner and are not in the list. So the next
  scanner starts at the line after the answer of the last one, whatever standard input
  is.
\<close>

record aggregator =
  mapFiles :: "string set"
  stdin :: "string list"
  printed :: "report list"

definition say :: "report \<Rightarrow> aggregator \<Rightarrow> aggregator" where
  "say r s = s\<lparr>printed := printed s @ [r]\<rparr>"

text \<open>
  Lines 244 to 280, the branch \<^verbatim>\<open>if ok\<close>: the file is a duplicate. With both flags
  set the user is asked; otherwise the deletion message of line 278 is written, whatever
  \<^verbatim>\<open>needRemoveDuplicate\<close> is.
\<close>

definition on_duplicate :: "Options \<Rightarrow> aggregator \<Rightarrow> FindDuplicate \<Rightarrow> aggregator option" where
  "on_duplicate opts s fd =
     (let s = say (Debug_duplicate (path fd) (FileSize fd)) s in
      if mustConfirmationDelete opts \<and> needRemoveDuplicate opts then
        (let s = say (Ask_delete (path fd) (FileSize fd)) s in
         case confirm_loop fd True (NewScanner (stdin s)) (printed s) of
           None \<Rightarrow> None
         | Some (scanner, out) \<Rightarrow> Some (s\<lparr>stdin := src scanner, printed := out\<rparr>))
      else Some (say (File_deleted (path fd)) s))"

text \<open>The body of \<^verbatim>\<open>for fd := range ch\<close>, lines 230 to 283.\<close>

definition handle :: "Options \<Rightarrow> aggregator \<Rightarrow> FindDuplicate \<Rightarrow> aggregator option" where
  "handle opts s fd =
     (if mustConfirmationDelete opts \<and> FileName fd = [] then
        Some (say (Debug_directory (workerId fd) (DirName fd)) s)
      else
        (let s = say (Debug_found (path fd)) s in
         if sMapKey fd \<in> mapFiles s then on_duplicate opts s fd
         else Some (s\<lparr>mapFiles := insert (sMapKey fd) (mapFiles s)\<rparr>)))"

text \<open>
  The \<^verbatim>\<open>range\<close> loop over the channel; the list is what is sent before the channel
  is closed. An event whose handling never ends keeps the later ones unreceived.
\<close>

fun range_ch :: "Options \<Rightarrow> aggregator \<Rightarrow> FindDuplicate list \<Rightarrow> aggregator option" where
  "range_ch opts s [] = Some s"
| "range_ch opts s (fd # ch) =
     (case handle opts s fd of None \<Rightarrow> None | Some s' \<Rightarrow> range_ch opts s' ch)"

definition StartDuplicateFind ::
  "Options \<Rightarrow> FindDuplicate list \<Rightarrow> string list \<Rightarrow> aggregator option" where
  "StartDuplicateFind opts ch input =
     (case range_ch opts \<lparr>mapFiles = {}, stdin = input, printed = [Info_start]\<rparr> ch of
        None \<Rightarrow> None
      | Some s \<Rightarrow> Some (say Info_stop s))"



subsection \<open>The directory tree\<close>

text \<open>
  What the file system answers for one name of a directory listing, in the order
  \<^verbatim>\<open>StartContentChanges\<close> asks (lines 342 to 360): \<^verbatim>\<open>os.Stat\<close> fails
  (\<open>Unstatable\<close>); it succeeds on something that is not a directory, with a name and a
  size (\<open>Regular\<close>); it succeeds on a directory that \<^verbatim>\<open>os.Open\<close> refuses
  (\<open>Unopenable\<close>); the directory opens and \<^verbatim>\<open>Readdirnames\<close> fails on it
  (\<open>Unreadable\<close>) or lists its entries (\<open>Directory\<close>). The tree does not change
  during a walk.
\<close>

datatype entry =
    Regular string int64
  | Directory string "entry list"
  | Unreadable string
  | Unopenable string
  | Unstatable string

text \<open>
  The walk of one directory with every \<^verbatim>\<open>AddWorker\<close> refused, so that line 372 calls
  \<^verbatim>\<open>StartContentChanges\<close> in line: the events it sends, in order. The first argument
  is \<^verbatim>\<open>mustConfirmationDelete\<close>; an open directory is its name and what
  \<^verbatim>\<open>Readdirnames\<close> answers (\<open>None\<close> for an error). An error ends the walk of the
  directory it occurs in (lines 337, 347, 359) and the caller of line 372 drops it.
\<close>

fun walk_entries :: "bool \<Rightarrow> string \<Rightarrow> entry list \<Rightarrow> FindDuplicate list" where
  "walk_entries confirm d [] = []"
| "walk_entries confirm d (Unstatable n # es) = []"
| "walk_entries confirm d (Regular n sz # es) = file_event d n sz # walk_entries confirm d es"
| "walk_entries confirm d (Unopenable n # es) = []"
| "walk_entries confirm d (Directory n sub # es) =
     (if confirm then [dir_event (d @ ''/'' @ n)] else [])
       @ walk_entries confirm (d @ ''/'' @ n) sub @ walk_entries confirm d es"
| "walk_entries confirm d (Unreadable n # es) =
     (if confirm then [dir_event (d @ ''/'' @ n)] else []) @ walk_entries confirm d es"

definition walk_dir :: "bool \<Rightarrow> string \<Rightarrow> entry list option \<Rightarrow> FindDuplicate list" where
  "walk_dir confirm d listing =
     (if confirm then [dir_event d] else [])
       @ (case listing of None \<Rightarrow> [] | Some es \<Rightarrow> walk_entries confirm d es)"


text \<open>A tree on which no \<^verbatim>\<open>os.Stat\<close>, \<^verbatim>\<open>os.Open\<close> or \<^verbatim>\<open>Readdirnames\<close> fails.\<close>

fun healthy :: "entry list \<Rightarrow> bool" where
  "healthy [] = True"
| "healthy (Regular n sz # es) = healthy es"
| "healthy (Directory n sub # es) = (healthy sub \<and> healthy es)"
| "healthy (e # es) = False"

subsection \<open>The walkers \<^verbatim>\<open>StartContentChanges\<close> as goroutines\<close>

text \<open>
  A goroutine is a stack of activations of \<^verbatim>\<open>StartContentChanges\<close>, the innermost
  first, and a flag telling the goroutine of \<^verbatim>\<open>StartWatch\<close> (line 299) from those of
  line 365. An activation is at one of three places, always with the name of its
  directory and its \<^verbatim>\<open>idWorker\<close>:
  \<^item> \<open>Call\<close>: at its start, before line 325, holding what \<^verbatim>\<open>Readdirnames\<close> will answer;
  \<^item> \<open>Read\<close>: before line 332, the directory message written;
  \<^item> \<open>Loop\<close>: in the loop of line 341, holding the names not yet looked at.
\<close>

datatype frame =
    Call string "entry list option" uint16
  | Read string "entry list option" uint16
  | Loop string "entry list" uint16

datatype goroutine = Goroutine bool "frame list"

text \<open>
  The state of a walk: the shared \<^verbatim>\<open>Options\<close>, the goroutines not yet finished (the
  ones the wait group counts), the events sent over the channel so far, the directory
  lines printed by the walkers themselves (line 329, the worker id and the name), and
  whether \<^verbatim>\<open>Fatalf\<close> of line 304 has ended the process. The error lines of lines 335,
  345 and 357 go to the logger and are left out.
\<close>

record walk_state =
  shared :: Options
  running :: "goroutine list"
  channel :: "FindDuplicate list"
  stdout :: "(uint16 \<times> string) list"
  exited :: bool

text \<open>
  What one step of one goroutine does: the new \<^verbatim>\<open>Options\<close>, the goroutines that
  replace it (itself unless it finished, and the one it started), the events it sent,
  the lines it printed, and whether it ended the process.
\<close>

type_synonym effect =
  "Options \<times> goroutine list \<times> FindDuplicate list \<times> (uint16 \<times> string) list \<times> bool"

text \<open>
  An activation returns, with an error or with nil. Under another activation the
  caller is line 372, which drops the result. At the bottom of the first goroutine the
  caller is line 302: an error is fatal, otherwise the goroutine ends with
  \<^verbatim>\<open>wg.Done\<close>. At the bottom of a goroutine of line 365 the deferred
  \<^verbatim>\<open>RemoveWorker\<close> and \<^verbatim>\<open>wg.Done\<close> run.
\<close>

definition return_to :: "Options \<Rightarrow> bool \<Rightarrow> frame list \<Rightarrow> bool \<Rightarrow> effect" where
  "return_to opts first callers err =
     (if callers \<noteq> [] then (opts, [Goroutine first callers], [], [], False)
      else if first then (opts, [], [], [], err)
      else (RemoveWorker opts, [], [], [], False))"

text \<open>
  Lines 351 to 373 for a name that is a directory and opens: \<^verbatim>\<open>AddWorker\<close> decides
  between a new goroutine with \<^verbatim>\<open>idWorker+1\<close> and a call in line with \<^verbatim>\<open>idWorker\<close>.
\<close>

definition descend ::
  "Options \<Rightarrow> bool \<Rightarrow> string \<Rightarrow> string \<Rightarrow> entry list option \<Rightarrow> entry list \<Rightarrow> uint16
     \<Rightarrow> frame list \<Rightarrow> effect" where
  "descend opts first d n listing es idWorker callers =
     (let sCatalogName = d @ ''/'' @ n in
      case AddWorker opts of
        (granted, opts') \<Rightarrow>
          if granted then
            (opts',
             [Goroutine first (Loop d es idWorker # callers),
              Goroutine False [Call sCatalogName listing (idWorker + 1)]],
             [], [], False)
          else
            (opts',
             [Goroutine first (Call sCatalogName listing idWorker # Loop d es idWorker # callers)],
             [], [], False))"

text \<open>
  One step of a goroutine, by the place of its innermost activation. Every step holds at
  most one action the other goroutines can see: a send, or one call of
  \<^verbatim>\<open>AddWorker\<close> or \<^verbatim>\<open>RemoveWorker\<close>, which the mutex makes atomic. A goroutine
  always has an activation; the first equation only makes the function total.
\<close>

fun exec :: "Options \<Rightarrow> bool \<Rightarrow> frame list \<Rightarrow> effect" where
  "exec opts first [] = (opts, [], [], [], False)"
| "exec opts first (Call d listing idWorker # callers) =
     (if mustConfirmationDelete opts then
        (opts, [Goroutine first (Read d listing idWorker # callers)], [dir_event d], [], False)
      else
        (opts, [Goroutine first (Read d listing idWorker # callers)], [], [(idWorker, d)], False))"
| "exec opts first (Read d None idWorker # callers) = return_to opts first callers True"
| "exec opts first (Read d (Some es) idWorker # callers) =
     (opts, [Goroutine first (Loop d es idWorker # callers)], [], [], False)"
| "exec opts first (Loop d [] idWorker # callers) = return_to opts first callers False"
| "exec opts first (Loop d (Unstatable n # es) idWorker # callers) =
     return_to opts first callers True"
| "exec opts first (Loop d (Regular n sz # es) idWorker # callers) =
     (opts, [Goroutine first (Loop d es idWorker # callers)], [file_event d n sz], [], False)"
| "exec opts first (Loop d (Unopenable n # es) idWorker # callers) =
     return_to opts first callers True"
| "exec opts first (Loop d (Directory n sub # es) idWorker # callers) =
     descend opts first d n (Some sub) es idWorker callers"
| "exec opts first (Loop d (Unreadable n # es) idWorker # callers) =
     descend opts first d n None es idWorker callers"

text \<open>
  The scheduler picks the goroutine that moves next, by its position among the running
  ones; a schedule is the list of its picks. There is no step once the process has
  exited, and none for a position that holds no goroutine. \<open>step_at\<close> and \<open>run\<close> are the
  walkers' side alone: a send is one step of the sender and is taken to be received.
  \<open>step_with\<close> and \<open>run_with\<close> below add the receiver.
\<close>

definition step_at :: "nat \<Rightarrow> walk_state \<Rightarrow> walk_state option" where
  "step_at i st =
     (if exited st \<or> length (running st) \<le> i then None
      else
        (case running st ! i of
           Goroutine first stack \<Rightarrow>
             (case exec (shared st) first stack of
                (opts', gs, events, lines, fatal) \<Rightarrow>
                  Some \<lparr>shared = opts',
                        running = take i (running st) @ gs @ drop (Suc i) (running st),
                        channel = channel st @ events,
                        stdout = stdout st @ lines,
                        exited = fatal\<rparr>)))"

fun run :: "nat list \<Rightarrow> walk_state \<Rightarrow> walk_state option" where
  "run [] st = Some st"
| "run (i # sched) st = (case step_at i st of None \<Rightarrow> None | Some st' \<Rightarrow> run sched st')"

text \<open>
  \<^verbatim>\<open>StartWatch\<close>, lines 298 to 302: one goroutine, which sets the counter to 1 and
  calls \<^verbatim>\<open>StartContentChanges\<close> on the root with \<^verbatim>\<open>idWorker\<close> 1. The walk is over
  (line 311 returns and the channel is closed) when no goroutine is running.
\<close>

definition StartWatch :: "Options \<Rightarrow> string \<Rightarrow> entry list option \<Rightarrow> walk_state" where
  "StartWatch opts fDir listing =
     \<lparr>shared = CurrentThreadCountSet 1 opts,
      running = [Goroutine True [Call fDir listing 1]],
      channel = [], stdout = [], exited = False\<rparr>"

text \<open>
  The walkers together with the aggregator. The channel of line 292 is unbuffered, so a
  send is over when \<^verbatim>\<open>StartDuplicateFind\<close> receives the event, and it receives the next
  event once the body of its loop has returned for all the events before. \<open>receiving\<close>
  tells whether it has, for the events sent so far and the input on standard input;
  while a prompt waits for its answer it has not, and every goroutine that sends is
  held at its send. A step that sends nothing does not depend on the aggregator, and
  \<^verbatim>\<open>Fatalf\<close> ends the process whatever the aggregator does.
\<close>

definition receiving :: "Options \<Rightarrow> string list \<Rightarrow> FindDuplicate list \<Rightarrow> bool" where
  "receiving opts input sent =
     (case range_ch opts \<lparr>mapFiles = {}, stdin = input, printed = [Info_start]\<rparr> sent of
        None \<Rightarrow> False
      | Some s \<Rightarrow> True)"

definition step_with :: "string list \<Rightarrow> nat \<Rightarrow> walk_state \<Rightarrow> walk_state option" where
  "step_with input i st =
     (case step_at i st of
        None \<Rightarrow> None
      | Some st' \<Rightarrow>
          if channel st' = channel st \<or> receiving (shared st) input (channel st)
          then Some st' else None)"

fun run_with :: "string list \<Rightarrow> nat list \<Rightarrow> walk_state \<Rightarrow> walk_state option" where
  "run_with input [] st = Some st"
| "run_with input (i # sched) st =
     (case step_with input i st of None \<Rightarrow> None | Some st' \<Rightarrow> run_with input sched st')"



text \<open>
  What is left to send, a bound on the steps left, and the stacks on which no
  operation of the file system can fail; all three are used in proofs only.
\<close>

fun healthy_frame :: "frame \<Rightarrow> bool" where
  "healthy_frame (Call d None idWorker) = False"
| "healthy_frame (Call d (Some es) idWorker) = healthy es"
| "healthy_frame (Read d None idWorker) = False"
| "healthy_frame (Read d (Some es) idWorker) = healthy es"
| "healthy_frame (Loop d es idWorker) = healthy es"

fun healthy_goroutine :: "goroutine \<Rightarrow> bool" where
  "healthy_goroutine (Goroutine first stack) = list_all healthy_frame stack"

fun pending_frame :: "bool \<Rightarrow> frame \<Rightarrow> FindDuplicate list" where
  "pending_frame confirm (Call d listing idWorker) = walk_dir confirm d listing"
| "pending_frame confirm (Read d None idWorker) = []"
| "pending_frame confirm (Read d (Some es) idWorker) = walk_entries confirm d es"
| "pending_frame confirm (Loop d es idWorker) = walk_entries confirm d es"

fun pending_goroutine :: "bool \<Rightarrow> goroutine \<Rightarrow> FindDuplicate list" where
  "pending_goroutine confirm (Goroutine first stack) = concat (map (pending_frame confirm) stack)"

definition pending :: "bool \<Rightarrow> goroutine list \<Rightarrow> FindDuplicate list" where
  "pending confirm gs = concat (map (pending_goroutine confirm) gs)"

fun steps_entries :: "entry list \<Rightarrow> nat" where
  "steps_entries [] = 0"
| "steps_entries (Directory n sub # es) = 5 + steps_entries sub + steps_entries es"
| "steps_entries (Unreadable n # es) = 4 + steps_entries es"
| "steps_entries (e # es) = 1 + steps_entries es"

fun steps_frame :: "frame \<Rightarrow> nat" where
  "steps_frame (Call d None idWorker) = 2"
| "steps_frame (Call d (Some es) idWorker) = 3 + steps_entries es"
| "steps_frame (Read d None idWorker) = 1"
| "steps_frame (Read d (Some es) idWorker) = 2 + steps_entries es"
| "steps_frame (Loop d es idWorker) = 1 + steps_entries es"

fun steps_goroutine :: "goroutine \<Rightarrow> nat" where
  "steps_goroutine (Goroutine first stack) = Suc (sum_list (map steps_frame stack))"

definition steps_left :: "goroutine list \<Rightarrow> nat" where
  "steps_left gs = sum_list (map steps_goroutine gs)"


section \<open>Properties of the worker counter\<close>

lemma sint_succ_int16:
  fixes c :: int16
  assumes "sint c < 32767"
  shows "sint (c + 1) = sint c + 1"
proof -
  have lo: "- 32768 \<le> sint c"
    using sint_ge [of c] by simp
  have "sint (c + 1) = signed_take_bit 15 (sint c + 1)"
    by (simp add: sint_word_ariths)
  also have "\<dots> = sint c + 1"
    using lo assms by (simp add: signed_take_bit_int_eq_self)
  finally show ?thesis .
qed

lemma sint_pred_int16:
  fixes c :: int16
  assumes "- 32768 < sint c"
  shows "sint (c - 1) = sint c - 1"
proof -
  have hi: "sint c < 32768"
    using sint_lt [of c] by simp
  have "sint (c - 1) = signed_take_bit 15 (sint c - 1)"
    by (simp add: sint_word_ariths)
  also have "\<dots> = sint c - 1"
    using hi assms by (simp add: signed_take_bit_int_eq_self)
  finally show ?thesis .
qed

lemma minus_one_int16: "(m :: int16) = - 1 \<longleftrightarrow> sint m = - 1"
proof
  assume "m = - 1"
  then show "sint m = - 1" by simp
next
  assume "sint m = - 1"
  then have "sint m = sint (- 1 :: int16)" by simp
  then show "m = - 1" by (rule signed_word_eqI)
qed

text \<open>
  Claim C6. \<^verbatim>\<open>AddWorker\<close> returns true exactly when \<^verbatim>\<open>maxCountThread\<close> is -1 or
  the counter is strictly below it (as signed 16-bit numbers); then the counter, and
  nothing else, is incremented (Go's \<^verbatim>\<open>++\<close>, which is +1 on the integers whenever the
  counter is below 32767). Otherwise it returns false and the struct is unchanged.
\<close>

theorem AddWorker_grants_iff_capacity:
  "(fst (AddWorker opts) \<longleftrightarrow>
      sint (maxCountThread opts) = - 1 \<or>
      sint (currentThreadCount opts) < sint (maxCountThread opts))
   \<and> (fst (AddWorker opts) \<longrightarrow>
        snd (AddWorker opts) = opts\<lparr>currentThreadCount := currentThreadCount opts + 1\<rparr>
        \<and> (sint (currentThreadCount opts) < 32767 \<longrightarrow>
             sint (currentThreadCount (snd (AddWorker opts))) =
             sint (currentThreadCount opts) + 1))
   \<and> (\<not> fst (AddWorker opts) \<longrightarrow> snd (AddWorker opts) = opts)"
  by (simp add: AddWorker_def word_sless_alt minus_one_int16 sint_succ_int16)

theorem AddWorker_grants_iff_capacity_witness:
  "fst (AddWorker (CurrentThreadCountSet 3 (OptionsNew True False 10)))
   \<and> snd (AddWorker (CurrentThreadCountSet 3 (OptionsNew True False 10))) =
       CurrentThreadCountSet 4 (OptionsNew True False 10)
   \<and> \<not> fst (AddWorker (CurrentThreadCountSet 1 (OptionsNew True False 1)))
   \<and> snd (AddWorker (CurrentThreadCountSet 1 (OptionsNew True False 1))) =
       CurrentThreadCountSet 1 (OptionsNew True False 1)"
  using AddWorker_grants_iff_capacity [of "CurrentThreadCountSet 3 (OptionsNew True False 10)"]
    AddWorker_grants_iff_capacity [of "CurrentThreadCountSet 1 (OptionsNew True False 1)"]
  by (simp add: OptionsNew_def CurrentThreadCountSet_def)

lemma most_held_ge: "held \<le> most_held opts held cs"
  by (induction opts held cs rule: most_held.induct) simp_all

lemma most_held_take: "most_held opts held (take n cs) \<le> most_held opts held cs"
proof (induction cs arbitrary: opts held n)
  case Nil
  then show ?case by simp
next
  case (Cons c cs)
  show ?case
  proof (cases n)
    case 0
    then show ?thesis using most_held_ge [of held opts "c # cs"] by simp
  next
    case (Suc m)
    show ?thesis
    proof (cases c)
      case Acquire
      show ?thesis
      proof (cases "fst (AddWorker opts)")
        case True
        with Acquire Suc Cons [of "snd (AddWorker opts)" "Suc held" m] show ?thesis
          by simp
      next
        case False
        with Acquire Suc Cons [of "snd (AddWorker opts)" held m] show ?thesis
          by simp
      qed
    next
      case Release
      with Suc Cons [of "RemoveWorker opts" "held - 1" m] show ?thesis
        by simp
    qed
  qed
qed

lemma paired_calls_bounds:
  assumes "paired opts held cs"
    and "int held \<le> sint (currentThreadCount opts)"
    and "0 \<le> sint (maxCountThread opts) \<longrightarrow>
           sint (currentThreadCount opts) \<le> sint (maxCountThread opts)"
    and "maxCountThread opts = - 1 \<longrightarrow>
           sint (currentThreadCount opts) + int (most_held opts held cs) - int held \<le> 32767"
  shows "0 \<le> sint (currentThreadCount (calls opts cs))
         \<and> (0 \<le> sint (maxCountThread opts) \<longrightarrow>
              sint (currentThreadCount (calls opts cs)) \<le> sint (maxCountThread opts))"
  using assms
proof (induction cs arbitrary: opts held)
  case Nil
  then show ?case by simp
next
  case (Cons c cs)
  have top: "sint (maxCountThread opts) \<le> 32767"
    using sint_lt [of "maxCountThread opts"] by simp
  show ?case
  proof (cases c)
    case Acquire
    show ?thesis
    proof (cases "fst (AddWorker opts)")
      case True
      then have cap: "maxCountThread opts = - 1 \<or>
          sint (currentThreadCount opts) < sint (maxCountThread opts)"
        by (simp add: AddWorker_def word_sless_alt split: if_splits)
      have nxt: "snd (AddWorker opts) = opts\<lparr>currentThreadCount := currentThreadCount opts + 1\<rparr>"
        using True by (auto simp: AddWorker_def split: if_splits)
      have mh: "most_held opts held (c # cs)
          = max held (most_held (snd (AddWorker opts)) (Suc held) cs)"
        using Acquire True by simp
      have ge: "Suc held \<le> most_held (snd (AddWorker opts)) (Suc held) cs"
        by (rule most_held_ge)
      have room: "sint (currentThreadCount opts) < 32767"
      proof (cases "maxCountThread opts = - 1")
        case True
        with Cons.prems(4) have "sint (currentThreadCount opts)
            + int (most_held opts held (c # cs)) - int held \<le> 32767"
          by simp
        with mh ge show ?thesis by simp
      next
        case False
        with cap top show ?thesis by simp
      qed
      have s: "sint (currentThreadCount opts + 1) = sint (currentThreadCount opts) + 1"
        using room by (rule sint_succ_int16)
      have notm1: "0 \<le> sint (maxCountThread opts) \<Longrightarrow> maxCountThread opts \<noteq> - 1"
        by (auto simp: minus_one_int16)
      have "0 \<le> sint (currentThreadCount (calls (snd (AddWorker opts)) cs))
         \<and> (0 \<le> sint (maxCountThread (snd (AddWorker opts))) \<longrightarrow>
              sint (currentThreadCount (calls (snd (AddWorker opts)) cs))
                \<le> sint (maxCountThread (snd (AddWorker opts))))"
      proof (rule Cons.IH [of "snd (AddWorker opts)" "Suc held"])
        show "paired (snd (AddWorker opts)) (Suc held) cs"
          using Cons.prems(1) Acquire True by simp
        show "int (Suc held) \<le> sint (currentThreadCount (snd (AddWorker opts)))"
          using Cons.prems(2) by (simp add: nxt s)
        show "0 \<le> sint (maxCountThread (snd (AddWorker opts))) \<longrightarrow>
            sint (currentThreadCount (snd (AddWorker opts)))
              \<le> sint (maxCountThread (snd (AddWorker opts)))"
          using cap notm1 by (auto simp: nxt s)
        show "maxCountThread (snd (AddWorker opts)) = - 1 \<longrightarrow>
            sint (currentThreadCount (snd (AddWorker opts)))
              + int (most_held (snd (AddWorker opts)) (Suc held) cs) - int (Suc held) \<le> 32767"
        proof
          assume "maxCountThread (snd (AddWorker opts)) = - 1"
          then have "maxCountThread opts = - 1" by (simp add: nxt)
          with Cons.prems(4) have "sint (currentThreadCount opts)
              + int (most_held opts held (c # cs)) - int held \<le> 32767"
            by simp
          with mh show "sint (currentThreadCount (snd (AddWorker opts)))
              + int (most_held (snd (AddWorker opts)) (Suc held) cs) - int (Suc held) \<le> 32767"
            by (simp add: nxt s)
        qed
      qed
      then show ?thesis using Acquire by (simp add: nxt)
    next
      case False
      then have same: "snd (AddWorker opts) = opts"
        by (auto simp: AddWorker_def split: if_splits)
      have mh: "most_held opts held (c # cs) = max held (most_held opts held cs)"
        using Acquire False by (simp add: same)
      have "0 \<le> sint (currentThreadCount (calls opts cs))
         \<and> (0 \<le> sint (maxCountThread opts) \<longrightarrow>
              sint (currentThreadCount (calls opts cs)) \<le> sint (maxCountThread opts))"
      proof (rule Cons.IH [of opts held])
        show "paired opts held cs"
          using Cons.prems(1) Acquire False by (simp add: same)
        show "int held \<le> sint (currentThreadCount opts)" by (rule Cons.prems(2))
        show "0 \<le> sint (maxCountThread opts) \<longrightarrow>
            sint (currentThreadCount opts) \<le> sint (maxCountThread opts)"
          by (rule Cons.prems(3))
        show "maxCountThread opts = - 1 \<longrightarrow>
            sint (currentThreadCount opts) + int (most_held opts held cs) - int held \<le> 32767"
          using Cons.prems(4) mh by auto
      qed
      then show ?thesis using Acquire by (simp add: same)
    qed
  next
    case Release
    have held: "0 < held" and rest: "paired (RemoveWorker opts) (held - 1) cs"
      using Cons.prems(1) Release by simp_all
    have pos: "0 < sint (currentThreadCount opts)"
      using held Cons.prems(2) by simp
    have s: "sint (currentThreadCount opts - 1) = sint (currentThreadCount opts) - 1"
      using pos by (intro sint_pred_int16) simp
    have mh: "most_held opts held (c # cs)
        = max held (most_held (RemoveWorker opts) (held - 1) cs)"
      using Release by simp
    have "0 \<le> sint (currentThreadCount (calls (RemoveWorker opts) cs))
       \<and> (0 \<le> sint (maxCountThread (RemoveWorker opts)) \<longrightarrow>
            sint (currentThreadCount (calls (RemoveWorker opts) cs))
              \<le> sint (maxCountThread (RemoveWorker opts)))"
    proof (rule Cons.IH [of "RemoveWorker opts" "held - 1"])
      show "paired (RemoveWorker opts) (held - 1) cs" by (rule rest)
      show "int (held - 1) \<le> sint (currentThreadCount (RemoveWorker opts))"
        using Cons.prems(2) held by (simp add: RemoveWorker_def s)
      show "0 \<le> sint (maxCountThread (RemoveWorker opts)) \<longrightarrow>
          sint (currentThreadCount (RemoveWorker opts)) \<le> sint (maxCountThread (RemoveWorker opts))"
        using Cons.prems(3) by (auto simp: RemoveWorker_def s)
      show "maxCountThread (RemoveWorker opts) = - 1 \<longrightarrow>
          sint (currentThreadCount (RemoveWorker opts))
            + int (most_held (RemoveWorker opts) (held - 1) cs) - int (held - 1) \<le> 32767"
      proof
        assume "maxCountThread (RemoveWorker opts) = - 1"
        then have "maxCountThread opts = - 1" by (simp add: RemoveWorker_def)
        with Cons.prems(4) have "sint (currentThreadCount opts)
            + int (most_held opts held (c # cs)) - int held \<le> 32767"
          by simp
        with mh held show "sint (currentThreadCount (RemoveWorker opts))
            + int (most_held (RemoveWorker opts) (held - 1) cs) - int (held - 1) \<le> 32767"
          by (simp add: RemoveWorker_def s)
      qed
    qed
    then show ?thesis using Release by (simp add: RemoveWorker_def)
  qed
qed

lemma paired_take: "paired opts held cs \<Longrightarrow> paired opts held (take n cs)"
proof (induction cs arbitrary: opts held n)
  case Nil
  then show ?case by simp
next
  case (Cons c cs)
  show ?case
  proof (cases n)
    case 0
    then show ?thesis by simp
  next
    case (Suc m)
    show ?thesis
    proof (cases c)
      case Acquire
      with Cons Suc show ?thesis by (simp split: if_splits)
    next
      case Release
      with Cons Suc show ?thesis by simp
    qed
  qed
qed

lemma calls_unbounded_acquires:
  "maxCountThread opts = - 1 \<Longrightarrow>
   calls opts (replicate n Acquire) =
     opts\<lparr>currentThreadCount := currentThreadCount opts + word_of_nat n\<rparr>"
  by (induction n arbitrary: opts) (simp_all add: AddWorker_def add.assoc)

text \<open>
  With no bound (\<^verbatim>\<open>maxCountThread\<close> = -1) the 32768th grant in a row wraps the
  16-bit counter to -32768.
\<close>

lemma unbounded_counter_wraps:
  "sint (currentThreadCount (calls (OptionsNew True False (- 1)) (replicate 32768 Acquire)))
     = - 32768"
  by (simp add: calls_unbounded_acquires OptionsNew_def)

text \<open>
  Claim C7, as stated, for any sequence of calls: the counter never becomes negative.
  It fails on the sequence that releases without a grant: \<^verbatim>\<open>RemoveWorker\<close> on the
  fresh struct leaves the counter at -1.
\<close>

theorem release_without_grant_goes_negative:
  "sint (currentThreadCount (calls (OptionsNew True False 10) [Release])) = - 1"
  by (simp add: OptionsNew_def RemoveWorker_def)

text \<open>
  Claim C7, amended. Take any sequence of \<^verbatim>\<open>AddWorker\<close> and \<^verbatim>\<open>RemoveWorker\<close> calls
  in which every release follows a grant of its own that is not yet released, started
  on a struct whose counter is non-negative and, when \<^verbatim>\<open>maxCountThread\<close> is
  non-negative, not above it; in unbounded mode (-1) let the counter plus the largest
  number of grants held at once stay within 32767 (the length of the sequence is not
  bounded). Then after every prefix of the sequence the counter is non-negative, and it
  does not exceed \<^verbatim>\<open>maxCountThread\<close> when that is non-negative.
\<close>

theorem paired_calls_within_budget:
  assumes "paired opts 0 cs"
    and "0 \<le> sint (currentThreadCount opts)"
    and "0 \<le> sint (maxCountThread opts) \<longrightarrow>
           sint (currentThreadCount opts) \<le> sint (maxCountThread opts)"
    and "maxCountThread opts = - 1 \<longrightarrow>
           sint (currentThreadCount opts) + int (most_held opts 0 cs) \<le> 32767"
  shows "0 \<le> sint (currentThreadCount (calls opts (take n cs)))
         \<and> (0 \<le> sint (maxCountThread opts) \<longrightarrow>
              sint (currentThreadCount (calls opts (take n cs))) \<le> sint (maxCountThread opts))"
proof (rule paired_calls_bounds [of opts 0 "take n cs"])
  show "paired opts 0 (take n cs)"
    using assms(1) by (rule paired_take)
  show "int 0 \<le> sint (currentThreadCount opts)"
    using assms(2) by simp
  show "0 \<le> sint (maxCountThread opts) \<longrightarrow>
      sint (currentThreadCount opts) \<le> sint (maxCountThread opts)"
    by (rule assms(3))
  have "int (most_held opts 0 (take n cs)) \<le> int (most_held opts 0 cs)"
    using most_held_take [of opts 0 n cs] by simp
  then show "maxCountThread opts = - 1 \<longrightarrow>
      sint (currentThreadCount opts) + int (most_held opts 0 (take n cs)) - int 0 \<le> 32767"
    using assms(4) by auto
qed

theorem paired_calls_within_budget_witness:
  "paired (CurrentThreadCountSet 1 (OptionsNew True False (- 1))) 0
     [Acquire, Acquire, Release, Acquire, Release, Release]
   \<and> most_held (CurrentThreadCountSet 1 (OptionsNew True False (- 1))) 0
     [Acquire, Acquire, Release, Acquire, Release, Release] = 2
   \<and> 0 \<le> sint (currentThreadCount (calls (CurrentThreadCountSet 1 (OptionsNew True False (- 1)))
         (take 4 [Acquire, Acquire, Release, Acquire, Release, Release])))
   \<and> paired (CurrentThreadCountSet 1 (OptionsNew True False 2)) 0
     [Acquire, Acquire, Release, Acquire]
   \<and> 0 \<le> sint (currentThreadCount (calls (CurrentThreadCountSet 1 (OptionsNew True False 2))
         (take 4 [Acquire, Acquire, Release, Acquire])))
   \<and> sint (currentThreadCount (calls (CurrentThreadCountSet 1 (OptionsNew True False 2))
         (take 4 [Acquire, Acquire, Release, Acquire]))) \<le> 2"
proof -
  let ?u = "CurrentThreadCountSet 1 (OptionsNew True False (- 1))"
  let ?cu = "[Acquire, Acquire, Release, Acquire, Release, Release]"
  let ?opts = "CurrentThreadCountSet 1 (OptionsNew True False 2)"
  let ?cs = "[Acquire, Acquire, Release, Acquire]"
  have pu: "paired ?u 0 ?cu"
    by (simp add: OptionsNew_def CurrentThreadCountSet_def AddWorker_def RemoveWorker_def)
  have hu: "most_held ?u 0 ?cu = 2"
    by (simp add: OptionsNew_def CurrentThreadCountSet_def AddWorker_def RemoveWorker_def)
  have cu: "0 \<le> sint (currentThreadCount ?u)"
    by (simp add: OptionsNew_def CurrentThreadCountSet_def)
  have mu: "0 \<le> sint (maxCountThread ?u) \<longrightarrow>
      sint (currentThreadCount ?u) \<le> sint (maxCountThread ?u)"
    by (simp add: OptionsNew_def CurrentThreadCountSet_def)
  have uu: "maxCountThread ?u = - 1 \<longrightarrow>
      sint (currentThreadCount ?u) + int (most_held ?u 0 ?cu) \<le> 32767"
    by (simp only: hu) (simp add: OptionsNew_def CurrentThreadCountSet_def)
  have p: "paired ?opts 0 ?cs"
    by (simp add: OptionsNew_def CurrentThreadCountSet_def AddWorker_def RemoveWorker_def
        word_sless_alt)
  have c: "0 \<le> sint (currentThreadCount ?opts)"
    by (simp add: OptionsNew_def CurrentThreadCountSet_def)
  have m: "0 \<le> sint (maxCountThread ?opts) \<longrightarrow>
      sint (currentThreadCount ?opts) \<le> sint (maxCountThread ?opts)"
    by (simp add: OptionsNew_def CurrentThreadCountSet_def)
  have u: "maxCountThread ?opts = - 1 \<longrightarrow>
      sint (currentThreadCount ?opts) + int (most_held ?opts 0 ?cs) \<le> 32767"
    by (simp add: OptionsNew_def CurrentThreadCountSet_def)
  have mx: "sint (maxCountThread ?opts) = 2"
    by (simp add: OptionsNew_def CurrentThreadCountSet_def)
  show ?thesis
    using pu hu paired_calls_within_budget [OF pu cu mu uu, of 4]
      p paired_calls_within_budget [OF p c m u, of 4]
    by (simp add: mx)
qed

text \<open>
  The bound is on the grants held at once, not on the number of calls: in unbounded mode
  any number of grant and release pairs in a row is a paired sequence that never holds
  more than one grant, and it leaves the struct as it was.
\<close>

lemma alternating_calls_admitted:
  assumes "maxCountThread opts = - 1"
  shows "paired opts 0 (concat (replicate k [Acquire, Release]))
    \<and> most_held opts 0 (concat (replicate k [Acquire, Release])) \<le> 1
    \<and> calls opts (concat (replicate k [Acquire, Release])) = opts"
  using assms by (induction k) (simp_all add: AddWorker_def RemoveWorker_def)

section \<open>Properties of the identity key\<close>

lemma decimal_nat_digits: "set (decimal_nat n) \<subseteq> char_of ` {48 ..< (58::nat)}"
proof (induction n rule: decimal_nat.induct)
  case (1 n)
  show ?case
  proof (cases "n < 10")
    case True
    then have "char_of (48 + n) \<in> char_of ` {48 ..< (58::nat)}"
      by (intro imageI) simp
    with True show ?thesis by (subst decimal_nat.simps) simp
  next
    case False
    have "n mod 10 < 10" by simp
    then have "char_of (48 + n mod 10) \<in> char_of ` {48 ..< (58::nat)}"
      by (intro imageI) simp
    with 1 False show ?thesis by (subst decimal_nat.simps) simp
  qed
qed

lemma underscore_not_digit: "CHR ''_'' \<notin> char_of ` {48 ..< (58::nat)}"
proof
  assume "CHR ''_'' \<in> char_of ` {48 ..< (58::nat)}"
  then obtain k :: nat where k: "48 \<le> k" "k < 58" and c: "CHR ''_'' = char_of k" by auto
  from c have "of_char (CHR ''_'') = (of_char (char_of k :: char) :: nat)" by simp
  then have "(95::nat) = k mod 256" by simp
  with k show False by simp
qed

lemma minus_not_digit: "CHR ''-'' \<notin> char_of ` {48 ..< (58::nat)}"
proof
  assume "CHR ''-'' \<in> char_of ` {48 ..< (58::nat)}"
  then obtain k :: nat where k: "48 \<le> k" "k < 58" and c: "CHR ''-'' = char_of k" by auto
  from c have "of_char (CHR ''-'') = (of_char (char_of k :: char) :: nat)" by simp
  then have "(45::nat) = k mod 256" by simp
  with k show False by simp
qed

lemma digits_value_decimal_nat: "digits_value (decimal_nat n) = n"
proof (induction n rule: decimal_nat.induct)
  case (1 n)
  show ?case
  proof (cases "n < 10")
    case True
    then show ?thesis by (subst decimal_nat.simps) simp
  next
    case False
    have "n mod 10 < 10" by simp
    then have d: "(48 + n mod 10) mod 256 = 48 + n mod 10" by simp
    from 1 False show ?thesis
      by (subst decimal_nat.simps) (simp add: d del: decimal_nat.simps)
  qed
qed

lemma decimal_nat_inj: "decimal_nat m = decimal_nat n \<Longrightarrow> m = n"
  using digits_value_decimal_nat [of m] digits_value_decimal_nat [of n] by simp

lemma decimal_nat_nonempty: "decimal_nat n \<noteq> []"
  by (subst decimal_nat.simps) simp

lemma hd_decimal_nat_not_minus: "hd (decimal_nat n) \<noteq> CHR ''-''"
proof -
  have "hd (decimal_nat n) \<in> set (decimal_nat n)"
    using decimal_nat_nonempty by (rule hd_in_set)
  then have "hd (decimal_nat n) \<in> char_of ` {48 ..< (58::nat)}"
    using decimal_nat_digits by blast
  then show ?thesis using minus_not_digit by metis
qed

lemma Sprintf_d_inj: "Sprintf_d i = Sprintf_d j \<Longrightarrow> i = j"
proof -
  assume eq: "Sprintf_d i = Sprintf_d j"
  consider "i < 0" "j < 0" | "i < 0" "\<not> j < 0" | "\<not> i < 0" "j < 0" | "\<not> i < 0" "\<not> j < 0"
    by blast
  then show "i = j"
  proof cases
    case 1
    with eq have "decimal_nat (nat (- i)) = decimal_nat (nat (- j))"
      by (simp add: Sprintf_d_def)
    then have "nat (- i) = nat (- j)" by (rule decimal_nat_inj)
    with 1 show ?thesis by simp
  next
    case 2
    with eq have "CHR ''-'' # decimal_nat (nat (- i)) = decimal_nat (nat j)"
      by (simp add: Sprintf_d_def)
    then have "hd (decimal_nat (nat j)) = CHR ''-''" by (metis list.sel(1))
    then show ?thesis using hd_decimal_nat_not_minus by blast
  next
    case 3
    with eq have "decimal_nat (nat i) = CHR ''-'' # decimal_nat (nat (- j))"
      by (simp add: Sprintf_d_def)
    then have "hd (decimal_nat (nat i)) = CHR ''-''" by (metis list.sel(1))
    then show ?thesis using hd_decimal_nat_not_minus by blast
  next
    case 4
    with eq have "decimal_nat (nat i) = decimal_nat (nat j)"
      by (simp add: Sprintf_d_def)
    then have "nat i = nat j" by (rule decimal_nat_inj)
    with 4 show ?thesis by simp
  qed
qed

lemma Sprintf_d_no_underscore: "CHR ''_'' \<notin> set (Sprintf_d i)"
proof -
  have "CHR ''_'' \<notin> set (decimal_nat n)" for n
    using decimal_nat_digits [of n] underscore_not_digit by blast
  then show ?thesis by (simp add: Sprintf_d_def)
qed

lemma split_at_last_underscore:
  assumes "a @ CHR ''_'' # x = b @ CHR ''_'' # y"
    and "CHR ''_'' \<notin> set x" and "CHR ''_'' \<notin> set y"
  shows "a = b \<and> x = y"
proof -
  have "rev x @ CHR ''_'' # rev a = rev y @ CHR ''_'' # rev b"
    using assms(1) by (metis rev.simps(2) rev_append append_Cons append_Nil append_assoc)
  then have "takeWhile (\<lambda>c. c \<noteq> CHR ''_'') (rev x @ CHR ''_'' # rev a)
           = takeWhile (\<lambda>c. c \<noteq> CHR ''_'') (rev y @ CHR ''_'' # rev b)"
    by simp
  moreover have "takeWhile (\<lambda>c. c \<noteq> CHR ''_'') (rev x @ CHR ''_'' # rev a) = rev x"
    using assms(2) by (auto simp: takeWhile_tail)
  moreover have "takeWhile (\<lambda>c. c \<noteq> CHR ''_'') (rev y @ CHR ''_'' # rev b) = rev y"
    using assms(3) by (auto simp: takeWhile_tail)
  ultimately have xy: "x = y" by simp
  with assms(1) show ?thesis by simp
qed

lemma sMapKey_inj:
  "sMapKey a = sMapKey b \<longleftrightarrow> FileName a = FileName b \<and> FileSize a = FileSize b"
proof
  assume "sMapKey a = sMapKey b"
  then have "FileName a @ CHR ''_'' # Sprintf_d (sint (FileSize a))
           = FileName b @ CHR ''_'' # Sprintf_d (sint (FileSize b))"
    by (simp add: sMapKey_def)
  then have "FileName a = FileName b
      \<and> Sprintf_d (sint (FileSize a)) = Sprintf_d (sint (FileSize b))"
    by (rule split_at_last_underscore) (rule Sprintf_d_no_underscore)+
  then show "FileName a = FileName b \<and> FileSize a = FileSize b"
    by (auto dest: Sprintf_d_inj intro: signed_word_eqI)
next
  assume "FileName a = FileName b \<and> FileSize a = FileSize b"
  then show "sMapKey a = sMapKey b" by (simp add: sMapKey_def)
qed

section \<open>Properties of the aggregator\<close>

lemma confirm_loop_done: "confirm_loop fd False scanner out = Some (scanner, out)"
  by (subst confirm_loop.simps) simp


lemma answer_is_short: "a = ''y'' \<or> a = ''n'' \<Longrightarrow> length a < MaxScanTokenSize"
  by (auto simp: MaxScanTokenSize_def)

lemma confirm_loop_answer:
  assumes "\<forall>t \<in> set bad. t \<noteq> ''y'' \<and> t \<noteq> ''n'' \<and> length t < MaxScanTokenSize"
    and "a = ''y'' \<or> a = ''n''"
    and "\<not> scan_err scanner" and "src scanner = bad @ a # rest"
  shows "confirm_loop fd True scanner out =
         Some (scanner\<lparr>src := rest, tok := a\<rparr>,
               out @ replicate (length bad) Invalid_input
                 @ [if a = ''y'' then Confirmed_deleted (path fd) else Skipped])"
  using assms(1,3,4)
proof (induction bad arbitrary: scanner out)
  case Nil
  have sc: "Scan scanner = (True, scanner\<lparr>src := rest, tok := a\<rparr>)"
    using Nil.prems answer_is_short [OF assms(2)] by (simp add: Scan_def)
  show ?case
    using assms(2)
    by (subst confirm_loop.simps) (auto simp: sc Text_def confirm_loop_done)
next
  case (Cons b bad)
  have b: "b \<noteq> ''y''" "b \<noteq> ''n''" "length b < MaxScanTokenSize"
    and rest: "\<forall>t \<in> set bad. t \<noteq> ''y'' \<and> t \<noteq> ''n'' \<and> length t < MaxScanTokenSize"
    using Cons.prems(1) by simp_all
  let ?next = "scanner\<lparr>src := bad @ a # rest, tok := b\<rparr>"
  have sc: "Scan scanner = (True, ?next)"
    using Cons.prems(2,3) b(3) by (simp add: Scan_def)
  have "confirm_loop fd True scanner out = confirm_loop fd True ?next (out @ [Invalid_input])"
    using b by (subst confirm_loop.simps) (simp add: sc Text_def)
  also have "\<dots> = Some (?next\<lparr>src := rest, tok := a\<rparr>,
               (out @ [Invalid_input]) @ replicate (length bad) Invalid_input
                 @ [if a = ''y'' then Confirmed_deleted (path fd) else Skipped])"
  proof (rule Cons.IH [OF rest])
    show "\<not> scan_err ?next" using Cons.prems(2) by simp
    show "src ?next = bad @ a # rest" by simp
  qed
  finally show ?case by (simp add: replicate_append_same)
qed





lemma confirm_loop_extends:
  assumes "confirm_loop fd fl scanner out = Some r"
  shows "\<exists>more. snd r = out @ more"
proof (rule confirm_loop.raw_induct [OF _ assms,
      where P = "\<lambda>fd fl scanner out r. \<exists>more. snd r = out @ more"])
  fix loop :: "FindDuplicate \<Rightarrow> bool \<Rightarrow> Scanner \<Rightarrow> report list
      \<Rightarrow> (Scanner \<times> report list) option"
    and fd fl and scanner :: Scanner and out r
  assume IH: "\<And>fd fl (scanner :: Scanner) out r. loop fd fl scanner out = Some r \<Longrightarrow>
      \<exists>more. snd r = out @ more"
  assume body: "(if fl then
        (case Scan scanner of
           (got, scanner') \<Rightarrow>
             if got then
               (let txt = Text scanner' in
                if txt = ''y'' then
                  loop fd False scanner' (out @ [Confirmed_deleted (path fd)])
                else if txt = ''n'' then
                  loop fd False scanner' (out @ [Skipped])
                else
                  loop fd fl scanner' (out @ [Invalid_input]))
             else loop fd fl scanner' out)
      else Some (scanner, out)) = Some r"
  show "\<exists>more. snd r = out @ more"
  proof (cases fl)
    case False
    with body show ?thesis by auto
  next
    case True
    obtain got scanner' where sc: "Scan scanner = (got, scanner')"
      by (cases "Scan scanner")
    from body True sc
    consider "loop fd False scanner' (out @ [Confirmed_deleted (path fd)]) = Some r"
      | "loop fd False scanner' (out @ [Skipped]) = Some r"
      | "loop fd True scanner' (out @ [Invalid_input]) = Some r"
      | "loop fd True scanner' out = Some r"
      by (auto simp: Let_def split: if_splits)
    then show ?thesis
    proof cases
      case 1 from IH [OF this] show ?thesis by auto
    next
      case 2 from IH [OF this] show ?thesis by auto
    next
      case 3 from IH [OF this] show ?thesis by auto
    next
      case 4 from IH [OF this] show ?thesis by auto
    qed
  qed
qed

lemma on_duplicate_Some:
  assumes "on_duplicate opts s fd = Some s'"
  shows "mapFiles s' = mapFiles s
       \<and> (\<exists>more. printed s' = printed s @ Debug_duplicate (path fd) (FileSize fd) # more)"
proof (cases "mustConfirmationDelete opts \<and> needRemoveDuplicate opts")
  case False
  with assms show ?thesis
    by (auto simp: on_duplicate_def say_def Let_def)
next
  case True
  let ?out = "printed s @ [Debug_duplicate (path fd) (FileSize fd), Ask_delete (path fd) (FileSize fd)]"
  from assms True obtain scanner out where
    loop: "confirm_loop fd True (NewScanner (stdin s)) ?out = Some (scanner, out)"
    and s': "s' = s\<lparr>stdin := src scanner, printed := out\<rparr>"
    by (auto simp: on_duplicate_def say_def Let_def split: option.splits)
  from confirm_loop_extends [OF loop] obtain more where "out = ?out @ more" by auto
  with s' show ?thesis by simp
qed

lemma handle_mapFiles:
  assumes "handle opts s fd = Some s'"
  shows "mapFiles s' =
    (if mustConfirmationDelete opts \<and> FileName fd = [] then mapFiles s
     else insert (sMapKey fd) (mapFiles s))"
proof (cases "mustConfirmationDelete opts \<and> FileName fd = []")
  case True
  with assms show ?thesis by (auto simp: handle_def say_def)
next
  case False
  show ?thesis
  proof (cases "sMapKey fd \<in> mapFiles s")
    case True
    with assms False
    have "on_duplicate opts (say (Debug_found (path fd)) s) fd = Some s'"
      by (auto simp: handle_def say_def Let_def)
    from on_duplicate_Some [OF this] have "mapFiles s' = mapFiles s"
      by (simp add: say_def)
    with True False show ?thesis by auto
  next
    case notin: False
    with assms False show ?thesis by (auto simp: handle_def say_def Let_def)
  qed
qed

lemma range_ch_mapFiles:
  assumes "range_ch opts s ch = Some s'"
  shows "mapFiles s' = mapFiles s \<union>
     sMapKey ` {e \<in> set ch. \<not> (mustConfirmationDelete opts \<and> FileName e = [])}"
  using assms
proof (induction ch arbitrary: s)
  case Nil
  then show ?case by simp
next
  case (Cons fd ch)
  from Cons.prems obtain s1 where h: "handle opts s fd = Some s1"
    and r: "range_ch opts s1 ch = Some s'"
    by (auto split: option.splits)
  from Cons.IH [OF r] handle_mapFiles [OF h] show ?case by auto
qed

lemma handle_prompt_answer:
  assumes "mustConfirmationDelete opts" and "needRemoveDuplicate opts"
    and "FileName fd \<noteq> []" and "sMapKey fd \<in> mapFiles s"
    and "stdin s = bad @ a # rest"
    and "\<forall>t \<in> set bad. t \<noteq> ''y'' \<and> t \<noteq> ''n'' \<and> length t < MaxScanTokenSize"
    and "a = ''y'' \<or> a = ''n''"
  shows "handle opts s fd =
     Some (s\<lparr>stdin := rest,
             printed := printed s @
               [Debug_found (path fd), Debug_duplicate (path fd) (FileSize fd),
                Ask_delete (path fd) (FileSize fd)]
               @ replicate (length bad) Invalid_input
               @ [if a = ''y'' then Confirmed_deleted (path fd) else Skipped]\<rparr>)"
proof -
  let ?out = "printed s @ [Debug_found (path fd), Debug_duplicate (path fd) (FileSize fd),
                Ask_delete (path fd) (FileSize fd)]"
  have loop: "confirm_loop fd True (NewScanner (bad @ a # rest)) ?out =
      Some ((NewScanner (bad @ a # rest))\<lparr>src := rest, tok := a\<rparr>,
            ?out @ replicate (length bad) Invalid_input
              @ [if a = ''y'' then Confirmed_deleted (path fd) else Skipped])"
    using assms(6,7) by (rule confirm_loop_answer) (simp_all add: NewScanner_def)
  show ?thesis
    using assms(1-5) loop
    by (simp add: handle_def on_duplicate_def say_def Let_def)
qed





lemma distinct_pairs_keys:
  "distinct (map (\<lambda>e. (FileName e, FileSize e)) xs) \<Longrightarrow> distinct (map sMapKey xs)"
proof (induction xs)
  case Nil
  then show ?case by simp
next
  case (Cons x xs)
  have "sMapKey x \<notin> sMapKey ` set xs"
  proof
    assume "sMapKey x \<in> sMapKey ` set xs"
    then obtain y where y: "y \<in> set xs" and k: "sMapKey x = sMapKey y" by auto
    from k have "(FileName x, FileSize x) = (FileName y, FileSize y)"
      by (simp add: sMapKey_inj)
    with y have "(FileName x, FileSize x) \<in> (\<lambda>e. (FileName e, FileSize e)) ` set xs"
      by (metis (mono_tags, lifting) image_eqI)
    with Cons.prems show False by simp
  qed
  with Cons show ?case by simp
qed

lemma range_ch_no_duplicates:
  assumes "distinct (map sMapKey
             (filter (\<lambda>e. \<not> (mustConfirmationDelete opts \<and> FileName e = [])) ch))"
    and "\<forall>e \<in> set ch. \<not> (mustConfirmationDelete opts \<and> FileName e = []) \<longrightarrow>
           sMapKey e \<notin> mapFiles s"
  shows "range_ch opts s ch =
     Some (s\<lparr>mapFiles := mapFiles s \<union>
               sMapKey ` {e \<in> set ch. \<not> (mustConfirmationDelete opts \<and> FileName e = [])},
             printed := printed s @
               map (\<lambda>e. if mustConfirmationDelete opts \<and> FileName e = []
                         then Debug_directory (workerId e) (DirName e)
                         else Debug_found (path e)) ch\<rparr>)"
  using assms
proof (induction ch arbitrary: s)
  case Nil
  then show ?case by simp
next
  case (Cons fd ch)
  let ?skip = "\<lambda>e. mustConfirmationDelete opts \<and> FileName e = []"
  let ?line = "\<lambda>e. if mustConfirmationDelete opts \<and> FileName e = []
                         then Debug_directory (workerId e) (DirName e)
                         else Debug_found (path e)"
  show ?case
  proof (cases "?skip fd")
    case True
    let ?s1 = "say (Debug_directory (workerId fd) (DirName fd)) s"
    have h: "handle opts s fd = Some ?s1"
      using True by (simp add: handle_def)
    have d: "distinct (map sMapKey (filter (\<lambda>e. \<not> ?skip e) ch))"
      using Cons.prems(1) True by simp
    have n: "\<forall>e \<in> set ch. \<not> ?skip e \<longrightarrow> sMapKey e \<notin> mapFiles ?s1"
      using Cons.prems(2) by (simp add: say_def)
    have keys: "sMapKey ` {e \<in> set (fd # ch). \<not> ?skip e} = sMapKey ` {e \<in> set ch. \<not> ?skip e}"
      using True by auto
    have "range_ch opts s (fd # ch) = range_ch opts ?s1 ch"
      by (simp add: h)
    also have "\<dots> = Some (?s1\<lparr>mapFiles := mapFiles ?s1 \<union> sMapKey ` {e \<in> set ch. \<not> ?skip e},
             printed := printed ?s1 @ map ?line ch\<rparr>)"
      by (rule Cons.IH [OF d n])
    also have "?s1\<lparr>mapFiles := mapFiles ?s1 \<union> sMapKey ` {e \<in> set ch. \<not> ?skip e},
             printed := printed ?s1 @ map ?line ch\<rparr>
        = s\<lparr>mapFiles := mapFiles s \<union> sMapKey ` {e \<in> set (fd # ch). \<not> ?skip e},
             printed := printed s @ map ?line (fd # ch)\<rparr>"
      using True by (subst keys) (simp add: say_def)
    finally show ?thesis .
  next
    case False
    let ?s1 = "(say (Debug_found (path fd)) s)\<lparr>mapFiles := insert (sMapKey fd) (mapFiles s)\<rparr>"
    have fresh: "sMapKey fd \<notin> mapFiles s"
      using Cons.prems(2) False by simp
    have h: "handle opts s fd = Some ?s1"
      using False fresh by (auto simp: handle_def say_def Let_def)
    have d: "distinct (map sMapKey (filter (\<lambda>e. \<not> ?skip e) ch))"
      and other: "sMapKey fd \<notin> sMapKey ` {e \<in> set ch. \<not> ?skip e}"
      using Cons.prems(1) False by auto
    have n: "\<forall>e \<in> set ch. \<not> ?skip e \<longrightarrow> sMapKey e \<notin> mapFiles ?s1"
    proof (intro ballI impI)
      fix e
      assume e: "e \<in> set ch" and ne: "\<not> ?skip e"
      then have "sMapKey e \<in> sMapKey ` {e \<in> set ch. \<not> ?skip e}" by blast
      with other have "sMapKey e \<noteq> sMapKey fd" by metis
      moreover from Cons.prems(2) e ne have "sMapKey e \<notin> mapFiles s" by simp
      ultimately show "sMapKey e \<notin> mapFiles ?s1" by (simp add: say_def)
    qed
    have keys: "sMapKey ` {e \<in> set (fd # ch). \<not> ?skip e}
        = insert (sMapKey fd) (sMapKey ` {e \<in> set ch. \<not> ?skip e})"
      using False by auto
    have "range_ch opts s (fd # ch) = range_ch opts ?s1 ch"
      by (simp add: h)
    also have "\<dots> = Some (?s1\<lparr>mapFiles := mapFiles ?s1 \<union> sMapKey ` {e \<in> set ch. \<not> ?skip e},
             printed := printed ?s1 @ map ?line ch\<rparr>)"
      by (rule Cons.IH [OF d n])
    also have "?s1\<lparr>mapFiles := mapFiles ?s1 \<union> sMapKey ` {e \<in> set ch. \<not> ?skip e},
             printed := printed ?s1 @ map ?line ch\<rparr>
        = s\<lparr>mapFiles := mapFiles s \<union> sMapKey ` {e \<in> set (fd # ch). \<not> ?skip e},
             printed := printed s @ map ?line (fd # ch)\<rparr>"
      using False by (subst keys) (simp add: say_def)
    finally show ?thesis .
  qed
qed

text \<open>
  Claim C2. If the file events of the stream (those the test of line 232 does not skip)
  carry pairwise distinct pairs of file name and size, the aggregator returns, reads no
  input, and writes nothing but "processing directory" and "file found" lines: no event
  takes the duplicate branch, and every key is inserted. The key is injective: two
  events have the same key exactly when name and size agree, for every 64-bit size.
\<close>

theorem distinct_pairs_never_duplicate:
  assumes "distinct (map (\<lambda>e. (FileName e, FileSize e))
             (filter (\<lambda>e. \<not> (mustConfirmationDelete opts \<and> FileName e = [])) ch))"
  shows "StartDuplicateFind opts ch input =
     Some \<lparr>mapFiles = sMapKey ` {e \<in> set ch. \<not> (mustConfirmationDelete opts \<and> FileName e = [])},
           stdin = input,
           printed = Info_start #
             map (\<lambda>e. if mustConfirmationDelete opts \<and> FileName e = []
                       then Debug_directory (workerId e) (DirName e)
                       else Debug_found (path e)) ch @ [Info_stop]\<rparr>
     \<and> (\<forall>a b. sMapKey a = sMapKey b \<longleftrightarrow>
            FileName a = FileName b \<and> FileSize a = FileSize b)"
proof -
  let ?s0 = "\<lparr>mapFiles = {}, stdin = input, printed = [Info_start]\<rparr>"
  have d: "distinct (map sMapKey
             (filter (\<lambda>e. \<not> (mustConfirmationDelete opts \<and> FileName e = [])) ch))"
    using assms by (rule distinct_pairs_keys)
  have n: "\<forall>e \<in> set ch. \<not> (mustConfirmationDelete opts \<and> FileName e = []) \<longrightarrow>
           sMapKey e \<notin> mapFiles ?s0"
    by simp
  show ?thesis
    by (simp add: StartDuplicateFind_def range_ch_no_duplicates [OF d n] say_def sMapKey_inj)
qed

theorem distinct_pairs_never_duplicate_witness:
  "StartDuplicateFind (OptionsNew True True 10)
     [dir_event ''/root'', file_event ''/root/x'' ''a.txt'' 10, dir_event ''/root/y'',
      file_event ''/root/y'' ''a.txt'' 20] [''y''] =
   Some \<lparr>mapFiles = {''a.txt_10'', ''a.txt_20''}, stdin = [''y''],
         printed = [Info_start, Debug_directory 0 ''/root'', Debug_found ''/root/x/a.txt'',
           Debug_directory 0 ''/root/y'', Debug_found ''/root/y/a.txt'', Info_stop]\<rparr>"
proof -
  let ?opts = "OptionsNew True True 10"
  let ?ch = "[dir_event ''/root'', file_event ''/root/x'' ''a.txt'' 10, dir_event ''/root/y'',
      file_event ''/root/y'' ''a.txt'' 20]"
  have d: "distinct (map (\<lambda>e. (FileName e, FileSize e))
      (filter (\<lambda>e. \<not> (mustConfirmationDelete ?opts \<and> FileName e = [])) ?ch))"
    by (simp add: OptionsNew_def file_event_def dir_event_def)
  have keys: "sMapKey ` {e \<in> set ?ch. \<not> (mustConfirmationDelete ?opts \<and> FileName e = [])}
      = {''a.txt_10'', ''a.txt_20''}"
  proof -
    have "{e \<in> set ?ch. \<not> (mustConfirmationDelete ?opts \<and> FileName e = [])}
        = {file_event ''/root/x'' ''a.txt'' 10, file_event ''/root/y'' ''a.txt'' 20}"
      by (auto simp: OptionsNew_def file_event_def dir_event_def)
    moreover have "sMapKey (file_event ''/root/x'' ''a.txt'' 10) = ''a.txt_10''"
      by code_simp
    moreover have "sMapKey (file_event ''/root/y'' ''a.txt'' 20) = ''a.txt_20''"
      by code_simp
    ultimately show ?thesis by simp
  qed
  have "StartDuplicateFind ?opts ?ch [''y''] =
     Some \<lparr>mapFiles = sMapKey ` {e \<in> set ?ch. \<not> (mustConfirmationDelete ?opts \<and> FileName e = [])},
           stdin = [''y''],
           printed = Info_start #
             map (\<lambda>e. if mustConfirmationDelete ?opts \<and> FileName e = []
                       then Debug_directory (workerId e) (DirName e)
                       else Debug_found (path e)) ?ch @ [Info_stop]\<rparr>"
    using distinct_pairs_never_duplicate [OF d, of "[''y'']"] by (rule conjunct1)
  then show ?thesis
    by (simp only: keys) (simp add: OptionsNew_def file_event_def dir_event_def path_def)
qed

lemma range_ch_grows:
  "range_ch opts s ch = Some s' \<Longrightarrow> mapFiles s \<subseteq> mapFiles s'"
  using range_ch_mapFiles [of opts s ch s'] by blast




text \<open>
  Claim C9. Answering y to the prompt for a duplicate leaves \<^verbatim>\<open>mapFiles\<close> as it was,
  so the key stays: after any further events the key is still there, and an event with
  the same file name and size takes the duplicate branch again. On every run of the
  loop that returns, \<^verbatim>\<open>mapFiles\<close> at the end contains \<^verbatim>\<open>mapFiles\<close> at the start.
\<close>

theorem confirmed_deletion_keeps_key:
  assumes "mustConfirmationDelete opts" and "needRemoveDuplicate opts"
    and "FileName fd \<noteq> []" and "sMapKey fd \<in> mapFiles s"
    and "stdin s = ''y'' # rest"
    and "FileName fd' = FileName fd" and "FileSize fd' = FileSize fd"
  shows "(\<exists>s1. handle opts s fd = Some s1
            \<and> last (printed s1) = Confirmed_deleted (path fd)
            \<and> mapFiles s1 = mapFiles s
            \<and> (\<forall>ch s2. range_ch opts s1 ch = Some s2 \<longrightarrow>
                  sMapKey fd \<in> mapFiles s2
                  \<and> handle opts s2 fd' =
                      on_duplicate opts (say (Debug_found (path fd')) s2) fd'))
         \<and> (\<forall>t ch t'. range_ch opts t ch = Some t' \<longrightarrow> mapFiles t \<subseteq> mapFiles t')"
proof -
  let ?s1 = "s\<lparr>stdin := rest,
             printed := printed s @
               [Debug_found (path fd), Debug_duplicate (path fd) (FileSize fd),
                Ask_delete (path fd) (FileSize fd), Confirmed_deleted (path fd)]\<rparr>"
  have h: "handle opts s fd = Some ?s1"
    using handle_prompt_answer [of opts fd s "[]" "''y''" rest] assms(1-5)
    by simp
  have later: "sMapKey fd \<in> mapFiles s2
      \<and> handle opts s2 fd' = on_duplicate opts (say (Debug_found (path fd')) s2) fd'"
    if "range_ch opts ?s1 ch = Some s2" for ch s2
  proof -
    from range_ch_grows [OF that] assms(4) have k: "sMapKey fd \<in> mapFiles s2" by auto
    have "sMapKey fd' = sMapKey fd" using assms(6,7) by (simp add: sMapKey_inj)
    with k have "sMapKey fd' \<in> mapFiles s2" by simp
    then have "handle opts s2 fd' = on_duplicate opts (say (Debug_found (path fd')) s2) fd'"
      using assms(3,6) by (simp add: handle_def say_def Let_def)
    with k show ?thesis by simp
  qed
  have "handle opts s fd = Some ?s1 \<and> last (printed ?s1) = Confirmed_deleted (path fd)
      \<and> mapFiles ?s1 = mapFiles s
      \<and> (\<forall>ch s2. range_ch opts ?s1 ch = Some s2 \<longrightarrow>
            sMapKey fd \<in> mapFiles s2
            \<and> handle opts s2 fd' = on_duplicate opts (say (Debug_found (path fd')) s2) fd')"
    using h later by simp
  then show ?thesis using range_ch_grows by blast
qed

theorem confirmed_deletion_keeps_key_witness:
  "\<exists>s1. handle (OptionsNew True True 10)
       \<lparr>mapFiles = {''a.txt_10''}, stdin = [''y''],
        printed = [Info_start, Debug_found ''/root/a.txt'']\<rparr>
       (file_event ''/root/sub'' ''a.txt'' 10) = Some s1
     \<and> last (printed s1) = Confirmed_deleted ''/root/sub/a.txt''
     \<and> mapFiles s1 = {''a.txt_10''}
     \<and> handle (OptionsNew True True 10) s1 (file_event ''/root/other'' ''a.txt'' 10) =
         on_duplicate (OptionsNew True True 10)
           (say (Debug_found ''/root/other/a.txt'') s1)
           (file_event ''/root/other'' ''a.txt'' 10)"
proof -
  let ?opts = "OptionsNew True True 10"
  let ?fd = "file_event ''/root/sub'' ''a.txt'' 10"
  let ?fd' = "file_event ''/root/other'' ''a.txt'' 10"
  let ?s = "\<lparr>mapFiles = {''a.txt_10''}, stdin = [''y''],
      printed = [Info_start, Debug_found ''/root/a.txt'']\<rparr>"
  have c: "mustConfirmationDelete ?opts" and r: "needRemoveDuplicate ?opts"
    by (simp_all add: OptionsNew_def)
  have n: "FileName ?fd \<noteq> []"
    by (simp add: file_event_def)
  have "sMapKey ?fd = ''a.txt_10''"
    by code_simp
  then have k: "sMapKey ?fd \<in> mapFiles ?s"
    by simp
  have i: "stdin ?s = ''y'' # []"
    by simp
  have same: "FileName ?fd' = FileName ?fd" "FileSize ?fd' = FileSize ?fd"
    by (simp_all add: file_event_def)
  from confirmed_deletion_keeps_key [OF c r n k i same]
  obtain s1 where h: "handle ?opts ?s ?fd = Some s1"
    and l: "last (printed s1) = Confirmed_deleted (path ?fd)"
    and m: "mapFiles s1 = mapFiles ?s"
    and later: "\<forall>ch s2. range_ch ?opts s1 ch = Some s2 \<longrightarrow>
        sMapKey ?fd \<in> mapFiles s2
        \<and> handle ?opts s2 ?fd' = on_duplicate ?opts (say (Debug_found (path ?fd')) s2) ?fd'"
    by blast
  have "range_ch ?opts s1 [] = Some s1"
    by simp
  with later have "handle ?opts s1 ?fd' =
      on_duplicate ?opts (say (Debug_found (path ?fd')) s1) ?fd'"
    by blast
  with h l m show ?thesis
    by (auto simp: path_def file_event_def)
qed



text \<open>
  Claim C3, evaluated on scenario A of the specification in automatic mode without
  the removal flag (\<^verbatim>\<open>-a\<close> given, \<^verbatim>\<open>-r\<close> not): no input is read, and the second
  \<^verbatim>\<open>a.txt\<close> is reported with the deletion message of line 278 although
  \<^verbatim>\<open>needRemoveDuplicate\<close> is false.
\<close>

theorem report_only_mode_still_says_deleted:
  "StartDuplicateFind (OptionsNew False False 10)
     [file_event ''/root'' ''a.txt'' 10, file_event ''/root/sub'' ''a.txt'' 10] [''y''] =
   Some \<lparr>mapFiles = {''a.txt_10''}, stdin = [''y''],
         printed = [Info_start, Debug_found ''/root/a.txt'', Debug_found ''/root/sub/a.txt'',
           Debug_duplicate ''/root/sub/a.txt'' 10, File_deleted ''/root/sub/a.txt'',
           Info_stop]\<rparr>"
  by code_simp

section \<open>When the aggregator keeps receiving\<close>










section \<open>Properties of the walk\<close>

lemma pending_append: "pending c (xs @ ys) = pending c xs @ pending c ys"
  by (simp add: pending_def)

lemma return_to_pending:
  assumes "return_to opts first callers err = (opts', gs, events, lines, fatal)"
  shows "mset events + mset (pending c gs) = mset (concat (map (pending_frame c) callers))
       \<and> mustConfirmationDelete opts' = mustConfirmationDelete opts"
proof (cases "callers = []")
  case True
  with assms show ?thesis
    by (cases first) (auto simp: return_to_def pending_def RemoveWorker_def)
next
  case False
  with assms show ?thesis
    by (auto simp: return_to_def pending_def)
qed

lemma descend_pending:
  assumes "descend opts first d n listing es w callers = (opts', gs, events, lines, fatal)"
  shows "mset events + mset (pending c gs) =
         mset (walk_dir c (d @ ''/'' @ n) listing) + mset (walk_entries c d es)
           + mset (concat (map (pending_frame c) callers))
       \<and> mustConfirmationDelete opts' = mustConfirmationDelete opts"
proof -
  obtain granted o1 where a: "AddWorker opts = (granted, o1)"
    by (cases "AddWorker opts")
  then have m: "mustConfirmationDelete o1 = mustConfirmationDelete opts"
    by (auto simp: AddWorker_def split: if_splits)
  show ?thesis
  proof (cases granted)
    case True
    with assms a have "opts' = o1" "events = []"
      "gs = [Goroutine first (Loop d es w # callers),
             Goroutine False [Call (d @ ''/'' @ n) listing (w + 1)]]"
      by (simp_all add: descend_def Let_def)
    with m show ?thesis by (simp add: pending_def)
  next
    case False
    with assms a have "opts' = o1" "events = []"
      "gs = [Goroutine first (Call (d @ ''/'' @ n) listing w # Loop d es w # callers)]"
      by (simp_all add: descend_def Let_def)
    with m show ?thesis by (simp add: pending_def)
  qed
qed

lemma exec_pending_Call:
  assumes "exec opts first (Call d listing w # callers) = (opts', gs, events, lines, fatal)"
  shows "mset events + mset (pending (mustConfirmationDelete opts) gs)
         = mset (pending_goroutine (mustConfirmationDelete opts) (Goroutine first (Call d listing w # callers)))
       \<and> mustConfirmationDelete opts' = mustConfirmationDelete opts"
proof (cases "mustConfirmationDelete opts")
  case True
  with assms have "opts' = opts" "events = [dir_event d]"
    "gs = [Goroutine first (Read d listing w # callers)]"
    by simp_all
  with True show ?thesis
    by (cases listing) (simp_all add: pending_def walk_dir_def)
next
  case False
  with assms have "opts' = opts" "events = []"
    "gs = [Goroutine first (Read d listing w # callers)]"
    by simp_all
  with False show ?thesis
    by (cases listing) (simp_all add: pending_def walk_dir_def)
qed

lemma exec_pending:
  assumes "exec opts first stack = (opts', gs, events, lines, fatal)"
  shows "mset events + mset (pending (mustConfirmationDelete opts) gs)
         = mset (pending_goroutine (mustConfirmationDelete opts) (Goroutine first stack))
       \<and> mustConfirmationDelete opts' = mustConfirmationDelete opts"
proof (cases stack)
  case Nil
  with assms have "opts' = opts" "events = []" "gs = []" by simp_all
  with Nil show ?thesis by (simp add: pending_def)
next
  case (Cons fr callers)
  show ?thesis
  proof (cases fr)
    case (Call d listing w)
    with assms Cons show ?thesis by (simp only: exec_pending_Call)
  next
    case (Read d listing w)
    show ?thesis
    proof (cases listing)
      case None
      with assms Cons Read
      have "return_to opts first callers True = (opts', gs, events, lines, fatal)" by simp
      from return_to_pending [OF this] Cons Read None show ?thesis by simp
    next
      case (Some es)
      with assms Cons Read have "opts' = opts" "events = []"
        "gs = [Goroutine first (Loop d es w # callers)]"
        by simp_all
      with Cons Read Some show ?thesis by (simp add: pending_def)
    qed
  next
    case (Loop d es w)
    show ?thesis
    proof (cases es)
      case Nil
      with assms Cons Loop
      have "return_to opts first callers False = (opts', gs, events, lines, fatal)" by simp
      from return_to_pending [OF this] Cons Loop Nil show ?thesis by simp
    next
      case (Cons e rest)
      note es = Cons
      show ?thesis
      proof (cases e)
        case (Regular n sz)
        with assms \<open>stack = fr # callers\<close> Loop es have "opts' = opts"
          "events = [file_event d n sz]" "gs = [Goroutine first (Loop d rest w # callers)]"
          by simp_all
        with \<open>stack = fr # callers\<close> Loop es Regular show ?thesis by (simp add: pending_def)
      next
        case (Directory n sub)
        with assms \<open>stack = fr # callers\<close> Loop es
        have "descend opts first d n (Some sub) rest w callers = (opts', gs, events, lines, fatal)"
          by simp
        from descend_pending [OF this] \<open>stack = fr # callers\<close> Loop es Directory
        show ?thesis by (simp add: walk_dir_def)
      next
        case (Unreadable n)
        with assms \<open>stack = fr # callers\<close> Loop es
        have "descend opts first d n None rest w callers = (opts', gs, events, lines, fatal)"
          by simp
        from descend_pending [OF this] \<open>stack = fr # callers\<close> Loop es Unreadable
        show ?thesis by (simp add: walk_dir_def)
      next
        case (Unopenable n)
        with assms \<open>stack = fr # callers\<close> Loop es
        have "return_to opts first callers True = (opts', gs, events, lines, fatal)" by simp
        from return_to_pending [OF this] \<open>stack = fr # callers\<close> Loop es Unopenable
        show ?thesis by simp
      next
        case (Unstatable n)
        with assms \<open>stack = fr # callers\<close> Loop es
        have "return_to opts first callers True = (opts', gs, events, lines, fatal)" by simp
        from return_to_pending [OF this] \<open>stack = fr # callers\<close> Loop es Unstatable
        show ?thesis by simp
      qed
    qed
  qed
qed

lemma step_at_unfold:
  assumes "step_at i st = Some st'"
  obtains first stack opts' gs events lines fatal where
    "i < length (running st)" and "\<not> exited st"
    and "running st ! i = Goroutine first stack"
    and "exec (shared st) first stack = (opts', gs, events, lines, fatal)"
    and "st' = \<lparr>shared = opts',
      running = take i (running st) @ gs @ drop (Suc i) (running st),
      channel = channel st @ events, stdout = stdout st @ lines, exited = fatal\<rparr>"
proof -
  from assms have i: "i < length (running st)" and x: "\<not> exited st"
    by (auto simp: step_at_def split: if_splits)
  obtain first stack where g: "running st ! i = Goroutine first stack"
    by (cases "running st ! i")
  obtain opts' gs events lines fatal where
    e: "exec (shared st) first stack = (opts', gs, events, lines, fatal)"
    by (metis prod_cases5)
  from assms i x g e have "st' = \<lparr>shared = opts',
      running = take i (running st) @ gs @ drop (Suc i) (running st),
      channel = channel st @ events, stdout = stdout st @ lines, exited = fatal\<rparr>"
    by (simp add: step_at_def)
  with i x g e show ?thesis by (rule that)
qed

lemma step_at_pending:
  assumes "step_at i st = Some st'"
  shows "mset (channel st') + mset (pending (mustConfirmationDelete (shared st)) (running st'))
         = mset (channel st) + mset (pending (mustConfirmationDelete (shared st)) (running st))
       \<and> mustConfirmationDelete (shared st') = mustConfirmationDelete (shared st)"
proof -
  let ?c = "mustConfirmationDelete (shared st)"
  from assms obtain first stack opts' gs events lines fatal where
    i: "i < length (running st)"
    and g: "running st ! i = Goroutine first stack"
    and e: "exec (shared st) first stack = (opts', gs, events, lines, fatal)"
    and st': "st' = \<lparr>shared = opts',
      running = take i (running st) @ gs @ drop (Suc i) (running st),
      channel = channel st @ events, stdout = stdout st @ lines, exited = fatal\<rparr>"
    by (rule step_at_unfold)
  have split: "running st = take i (running st) @ Goroutine first stack # drop (Suc i) (running st)"
    using i g by (metis id_take_nth_drop)
  have "pending ?c (running st) = pending ?c (take i (running st))
      @ pending_goroutine ?c (Goroutine first stack) @ pending ?c (drop (Suc i) (running st))"
    by (subst split) (simp add: pending_def)
  moreover have "pending ?c (running st') = pending ?c (take i (running st))
      @ pending ?c gs @ pending ?c (drop (Suc i) (running st))"
    by (simp add: st' pending_append)
  moreover note exec_pending [OF e]
  ultimately show ?thesis by (simp add: st')
qed

lemma run_pending:
  assumes "run sched st = Some st'"
  shows "mset (channel st') + mset (pending (mustConfirmationDelete (shared st)) (running st'))
         = mset (channel st) + mset (pending (mustConfirmationDelete (shared st)) (running st))
       \<and> mustConfirmationDelete (shared st') = mustConfirmationDelete (shared st)"
  using assms
proof (induction sched arbitrary: st)
  case Nil
  then show ?case by simp
next
  case (Cons i sched)
  from Cons.prems obtain st1 where s: "step_at i st = Some st1"
    and r: "run sched st1 = Some st'"
    by (auto split: option.splits)
  from step_at_pending [OF s] Cons.IH [OF r] show ?case by simp
qed


lemma steps_left_append: "steps_left (xs @ ys) = steps_left xs + steps_left ys"
  by (simp add: steps_left_def)

lemma return_to_steps:
  assumes "return_to opts first callers err = (opts', gs, events, lines, fatal)"
  shows "steps_left gs \<le> Suc (sum_list (map steps_frame callers))"
  using assms by (auto simp: return_to_def steps_left_def split: if_splits)

lemma descend_steps:
  assumes "descend opts first d n listing es w callers = (opts', gs, events, lines, fatal)"
  shows "steps_left gs \<le> 3 + steps_frame (Call (d @ ''/'' @ n) listing w)
      + steps_entries es + sum_list (map steps_frame callers)"
proof -
  obtain granted o1 where a: "AddWorker opts = (granted, o1)"
    by (cases "AddWorker opts")
  show ?thesis
  proof (cases granted)
    case True
    with assms a have
      "gs = [Goroutine first (Loop d es w # callers),
             Goroutine False [Call (d @ ''/'' @ n) listing (w + 1)]]"
      by (simp add: descend_def Let_def)
    then show ?thesis by (cases listing) (simp_all add: steps_left_def)
  next
    case False
    with assms a have
      "gs = [Goroutine first (Call (d @ ''/'' @ n) listing w # Loop d es w # callers)]"
      by (simp add: descend_def Let_def)
    then show ?thesis by (cases listing) (simp_all add: steps_left_def)
  qed
qed

lemma exec_steps:
  assumes "exec opts first stack = (opts', gs, events, lines, fatal)"
  shows "steps_left gs < steps_goroutine (Goroutine first stack)"
proof (cases stack)
  case Nil
  with assms have "gs = []" by simp
  then show ?thesis by (simp add: steps_left_def)
next
  case (Cons fr callers)
  show ?thesis
  proof (cases fr)
    case (Call d listing w)
    with assms Cons have "gs = [Goroutine first (Read d listing w # callers)]"
      by (cases "mustConfirmationDelete opts") simp_all
    with Cons Call show ?thesis by (cases listing) (simp_all add: steps_left_def)
  next
    case (Read d listing w)
    show ?thesis
    proof (cases listing)
      case None
      with assms Cons Read
      have "return_to opts first callers True = (opts', gs, events, lines, fatal)" by simp
      from return_to_steps [OF this] Cons Read None show ?thesis by simp
    next
      case (Some es)
      with assms Cons Read have "gs = [Goroutine first (Loop d es w # callers)]"
        by simp
      with Cons Read Some show ?thesis by (simp add: steps_left_def)
    qed
  next
    case (Loop d es w)
    show ?thesis
    proof (cases es)
      case Nil
      with assms Cons Loop
      have "return_to opts first callers False = (opts', gs, events, lines, fatal)" by simp
      from return_to_steps [OF this] Cons Loop Nil show ?thesis by simp
    next
      case (Cons e rest)
      note es = Cons
      show ?thesis
      proof (cases e)
        case (Regular n sz)
        with assms \<open>stack = fr # callers\<close> Loop es
        have "gs = [Goroutine first (Loop d rest w # callers)]"
          by simp
        with \<open>stack = fr # callers\<close> Loop es Regular show ?thesis by (simp add: steps_left_def)
      next
        case (Directory n sub)
        with assms \<open>stack = fr # callers\<close> Loop es
        have "descend opts first d n (Some sub) rest w callers = (opts', gs, events, lines, fatal)"
          by simp
        from descend_steps [OF this] \<open>stack = fr # callers\<close> Loop es Directory
        show ?thesis by simp
      next
        case (Unreadable n)
        with assms \<open>stack = fr # callers\<close> Loop es
        have "descend opts first d n None rest w callers = (opts', gs, events, lines, fatal)"
          by simp
        from descend_steps [OF this] \<open>stack = fr # callers\<close> Loop es Unreadable
        show ?thesis by simp
      next
        case (Unopenable n)
        with assms \<open>stack = fr # callers\<close> Loop es
        have "return_to opts first callers True = (opts', gs, events, lines, fatal)" by simp
        from return_to_steps [OF this] \<open>stack = fr # callers\<close> Loop es Unopenable
        show ?thesis by simp
      next
        case (Unstatable n)
        with assms \<open>stack = fr # callers\<close> Loop es
        have "return_to opts first callers True = (opts', gs, events, lines, fatal)" by simp
        from return_to_steps [OF this] \<open>stack = fr # callers\<close> Loop es Unstatable
        show ?thesis by simp
      qed
    qed
  qed
qed

lemma step_at_steps:
  assumes "step_at i st = Some st'"
  shows "steps_left (running st') < steps_left (running st)"
proof -
  from assms obtain first stack opts' gs events lines fatal where
    i: "i < length (running st)"
    and g: "running st ! i = Goroutine first stack"
    and e: "exec (shared st) first stack = (opts', gs, events, lines, fatal)"
    and st': "st' = \<lparr>shared = opts',
      running = take i (running st) @ gs @ drop (Suc i) (running st),
      channel = channel st @ events, stdout = stdout st @ lines, exited = fatal\<rparr>"
    by (rule step_at_unfold)
  have split: "running st = take i (running st) @ Goroutine first stack # drop (Suc i) (running st)"
    using i g by (metis id_take_nth_drop)
  have "steps_left (running st) = steps_left (take i (running st))
      + steps_goroutine (Goroutine first stack) + steps_left (drop (Suc i) (running st))"
    by (subst split) (simp add: steps_left_def)
  moreover have "steps_left (running st') = steps_left (take i (running st))
      + steps_left gs + steps_left (drop (Suc i) (running st))"
    by (simp add: st' steps_left_append)
  moreover note exec_steps [OF e]
  ultimately show ?thesis by simp
qed

lemma run_steps:
  "run sched st = Some st' \<Longrightarrow> length sched + steps_left (running st') \<le> steps_left (running st)"
proof (induction sched arbitrary: st)
  case Nil
  then show ?case by simp
next
  case (Cons i sched)
  from Cons.prems obtain st1 where s: "step_at i st = Some st1"
    and r: "run sched st1 = Some st'"
    by (auto split: option.splits)
  from step_at_steps [OF s] Cons.IH [OF r] show ?case by simp
qed

lemma step_at_progress:
  assumes "\<not> exited st" and "running st \<noteq> []"
  shows "\<exists>st'. step_at 0 st = Some st'"
proof -
  from assms(2) have "0 < length (running st)" by simp
  with assms(1) show ?thesis
    by (auto simp: step_at_def split: goroutine.splits prod.splits)
qed


lemma complete_run_exists:
  "\<exists>sched st'. run sched st = Some st' \<and> (running st' = [] \<or> exited st')"
proof (induction "steps_left (running st)" arbitrary: st rule: less_induct)
  case less
  show ?case
  proof (cases "running st = [] \<or> exited st")
    case True
    then have "run [] st = Some st \<and> (running st = [] \<or> exited st)" by simp
    then show ?thesis by blast
  next
    case False
    then obtain st1 where s: "step_at 0 st = Some st1"
      using step_at_progress [of st] by blast
    from step_at_steps [OF s] less obtain sched st' where
      r: "run sched st1 = Some st'" and f: "running st' = [] \<or> exited st'"
      by blast
    from s r have "run (0 # sched) st = Some st'" by simp
    with f show ?thesis by blast
  qed
qed

lemma return_to_healthy:
  assumes "return_to opts first callers False = (opts', gs, events, lines, fatal)"
    and "list_all healthy_frame callers"
  shows "\<not> fatal \<and> list_all healthy_goroutine gs"
  using assms by (auto simp: return_to_def split: if_splits)

lemma descend_healthy:
  assumes "descend opts first d n (Some sub) es w callers = (opts', gs, events, lines, fatal)"
    and "healthy sub" and "healthy es" and "list_all healthy_frame callers"
  shows "\<not> fatal \<and> list_all healthy_goroutine gs"
proof -
  obtain granted o1 where a: "AddWorker opts = (granted, o1)"
    by (cases "AddWorker opts")
  show ?thesis
  proof (cases granted)
    case True
    with assms(1) a have "\<not> fatal"
      "gs = [Goroutine first (Loop d es w # callers),
             Goroutine False [Call (d @ ''/'' @ n) (Some sub) (w + 1)]]"
      by (simp_all add: descend_def Let_def)
    with assms(2-4) show ?thesis by simp
  next
    case False
    with assms(1) a have "\<not> fatal"
      "gs = [Goroutine first (Call (d @ ''/'' @ n) (Some sub) w # Loop d es w # callers)]"
      by (simp_all add: descend_def Let_def)
    with assms(2-4) show ?thesis by simp
  qed
qed

lemma exec_healthy:
  assumes "exec opts first stack = (opts', gs, events, lines, fatal)"
    and "list_all healthy_frame stack"
  shows "\<not> fatal \<and> list_all healthy_goroutine gs"
proof (cases stack)
  case Nil
  with assms show ?thesis by simp
next
  case (Cons fr callers)
  with assms(2) have fr: "healthy_frame fr" and cs: "list_all healthy_frame callers"
    by simp_all
  show ?thesis
  proof (cases fr)
    case (Call d listing w)
    with fr obtain es where l: "listing = Some es" and h: "healthy es"
      by (cases listing) simp_all
    from assms(1) Cons Call have "\<not> fatal" "gs = [Goroutine first (Read d listing w # callers)]"
      by (cases "mustConfirmationDelete opts"; simp)+
    with l h cs show ?thesis by simp
  next
    case (Read d listing w)
    with fr obtain es where l: "listing = Some es" and h: "healthy es"
      by (cases listing) simp_all
    from assms(1) Cons Read l have "\<not> fatal" "gs = [Goroutine first (Loop d es w # callers)]"
      by simp_all
    with h cs show ?thesis by simp
  next
    case (Loop d es w)
    with fr have h: "healthy es" by simp
    show ?thesis
    proof (cases es)
      case Nil
      with assms(1) Cons Loop
      have "return_to opts first callers False = (opts', gs, events, lines, fatal)" by simp
      from return_to_healthy [OF this cs] show ?thesis .
    next
      case (Cons e rest)
      note es = Cons
      show ?thesis
      proof (cases e)
        case (Regular n sz)
        with assms(1) \<open>stack = fr # callers\<close> Loop es
        have "\<not> fatal" "gs = [Goroutine first (Loop d rest w # callers)]"
          by simp_all
        with h es Regular cs show ?thesis by simp
      next
        case (Directory n sub)
        with assms(1) \<open>stack = fr # callers\<close> Loop es
        have "descend opts first d n (Some sub) rest w callers = (opts', gs, events, lines, fatal)"
          by simp
        moreover from h es Directory have "healthy sub" "healthy rest" by simp_all
        ultimately show ?thesis using cs by (rule descend_healthy)
      next
        case (Unreadable n)
        with h es show ?thesis by simp
      next
        case (Unopenable n)
        with h es show ?thesis by simp
      next
        case (Unstatable n)
        with h es show ?thesis by simp
      qed
    qed
  qed
qed

lemma step_at_healthy:
  assumes "step_at i st = Some st'" and "list_all healthy_goroutine (running st)"
  shows "\<not> exited st' \<and> list_all healthy_goroutine (running st')"
proof -
  from assms(1) obtain first stack opts' gs events lines fatal where
    i: "i < length (running st)"
    and g: "running st ! i = Goroutine first stack"
    and e: "exec (shared st) first stack = (opts', gs, events, lines, fatal)"
    and st': "st' = \<lparr>shared = opts',
      running = take i (running st) @ gs @ drop (Suc i) (running st),
      channel = channel st @ events, stdout = stdout st @ lines, exited = fatal\<rparr>"
    by (rule step_at_unfold)
  from assms(2) i g have "healthy_goroutine (Goroutine first stack)"
    by (metis list_all_length)
  then have "list_all healthy_frame stack" by simp
  from exec_healthy [OF e this] have f: "\<not> fatal" and h: "list_all healthy_goroutine gs"
    by simp_all
  have "list_all healthy_goroutine (take i (running st))"
    "list_all healthy_goroutine (drop (Suc i) (running st))"
    using assms(2) by (auto simp: list_all_iff dest: in_set_takeD in_set_dropD)
  with f h show ?thesis by (simp add: st')
qed

lemma run_healthy:
  assumes "run sched st = Some st'" and "\<not> exited st"
    and "list_all healthy_goroutine (running st)"
  shows "\<not> exited st'"
  using assms
proof (induction sched arbitrary: st)
  case Nil
  then show ?case by simp
next
  case (Cons i sched)
  from Cons.prems(1) obtain st1 where s: "step_at i st = Some st1"
    and r: "run sched st1 = Some st'"
    by (auto split: option.splits)
  from step_at_healthy [OF s Cons.prems(3)] Cons.IH [OF r] show ?case by simp
qed




lemma healthy_walk_finishes:
  assumes "healthy es"
  shows "\<exists>sched st. run sched (StartWatch opts fDir (Some es)) = Some st \<and> running st = []"
proof -
  obtain sched st where r: "run sched (StartWatch opts fDir (Some es)) = Some st"
    and f: "running st = [] \<or> exited st"
    using complete_run_exists by blast
  have "\<not> exited (StartWatch opts fDir (Some es))"
    and "list_all healthy_goroutine (running (StartWatch opts fDir (Some es)))"
    using assms by (simp_all add: StartWatch_def)
  with r have "\<not> exited st" by (rule run_healthy)
  with r f show ?thesis by blast
qed

lemma walk_entries_workerId: "\<forall>e \<in> set (walk_entries c d es). workerId e = 0"
  by (induction c d es rule: walk_entries.induct) (auto simp: file_event_def dir_event_def)

lemma pending_workerId: "\<forall>e \<in> set (pending c gs). workerId e = 0"
proof -
  have fr: "\<forall>e \<in> set (pending_frame c f). workerId e = 0" for f
  proof (cases f)
    case (Call d listing w)
    then show ?thesis
      using walk_entries_workerId
      by (cases listing) (auto simp: walk_dir_def dir_event_def)
  next
    case (Read d listing w)
    then show ?thesis
      using walk_entries_workerId by (cases listing) auto
  next
    case (Loop d es w)
    then show ?thesis using walk_entries_workerId by auto
  qed
  have "\<forall>e \<in> set (pending_goroutine c g). workerId e = 0" for g
    using fr by (cases g) auto
  then show ?thesis by (auto simp: pending_def)
qed

lemma sent_events_workerId:
  assumes "run sched (StartWatch opts fDir listing) = Some st"
  shows "\<forall>e \<in> set (channel st). workerId e = 0"
proof
  let ?init = "StartWatch opts fDir listing"
  let ?c = "mustConfirmationDelete (shared ?init)"
  note eq = run_pending [OF assms, THEN conjunct1]
  fix e
  assume "e \<in> set (channel st)"
  then have "e \<in># mset (channel st) + mset (pending ?c (running st))"
    by simp
  then have "e \<in># mset (channel ?init) + mset (pending ?c (running ?init))"
    by (simp only: eq)
  then have "e \<in> set (pending ?c (running ?init))"
    by (simp add: StartWatch_def)
  then show "workerId e = 0"
    using pending_workerId by blast
qed







lemma exec_flags:
  "mustConfirmationDelete (fst (exec opts first stack)) = mustConfirmationDelete opts
   \<and> needRemoveDuplicate (fst (exec opts first stack)) = needRemoveDuplicate opts"
  by (cases "(opts, first, stack)" rule: exec.cases)
    (simp_all add: return_to_def descend_def AddWorker_def RemoveWorker_def Let_def)

lemma step_at_flags:
  assumes "step_at i st = Some st'"
  shows "mustConfirmationDelete (shared st') = mustConfirmationDelete (shared st)
       \<and> needRemoveDuplicate (shared st') = needRemoveDuplicate (shared st)"
proof -
  from assms obtain first stack opts' gs events lines fatal where
    e: "exec (shared st) first stack = (opts', gs, events, lines, fatal)"
    and st': "st' = \<lparr>shared = opts',
      running = take i (running st) @ gs @ drop (Suc i) (running st),
      channel = channel st @ events, stdout = stdout st @ lines, exited = fatal\<rparr>"
    by (rule step_at_unfold)
  from exec_flags [of "shared st" first stack] e show ?thesis
    by (simp add: st')
qed

lemma run_flags:
  assumes "run sched st = Some st'"
  shows "mustConfirmationDelete (shared st') = mustConfirmationDelete (shared st)
       \<and> needRemoveDuplicate (shared st') = needRemoveDuplicate (shared st)"
  using assms
proof (induction sched arbitrary: st)
  case Nil
  then show ?case by simp
next
  case (Cons i sched)
  from Cons.prems obtain st1 where s: "step_at i st = Some st1"
    and r: "run sched st1 = Some st'"
    by (auto split: option.splits)
  from step_at_flags [OF s] Cons.IH [OF r] show ?case by simp
qed

lemma run_healthy_all:
  assumes "run sched st = Some st'" and "\<not> exited st"
    and "list_all healthy_goroutine (running st)"
  shows "\<not> exited st' \<and> list_all healthy_goroutine (running st')"
  using assms
proof (induction sched arbitrary: st)
  case Nil
  then show ?case by simp
next
  case (Cons i sched)
  from Cons.prems(1) obtain st1 where s: "step_at i st = Some st1"
    and r: "run sched st1 = Some st'"
    by (auto split: option.splits)
  from step_at_healthy [OF s Cons.prems(3)] Cons.IH [OF r] show ?case by simp
qed




lemma run_with_append:
  "run_with input (xs @ ys) st =
     (case run_with input xs st of None \<Rightarrow> None | Some st' \<Rightarrow> run_with input ys st')"
  by (induction xs arbitrary: st) (auto split: option.splits)











text \<open>
  Claim C4, evaluated on a root directory holding one file: the walker runs with
  \<^verbatim>\<open>idWorker\<close> 1 (it prints 1 in its own directory line), and the file event it sends
  has \<^verbatim>\<open>workerId\<close> 0, since the literal of line 376 does not set the field. The
  directory path, the name and the size are those of the entry. By
  \<open>sent_events_workerId\<close> every event of every run has \<^verbatim>\<open>workerId\<close> 0.
\<close>

theorem file_event_carries_no_worker_id:
  "run [0, 0, 0] (StartWatch (OptionsNew False False 10) ''/root'' (Some [Regular ''a.txt'' 10]))
   = Some \<lparr>shared = \<lparr>mustConfirmationDelete = False, needRemoveDuplicate = False,
                      maxCountThread = 10, currentThreadCount = 1\<rparr>,
           running = [Goroutine True [Loop ''/root'' [] 1]],
           channel = [\<lparr>DirName = ''/root'', FileName = ''a.txt'', FileSize = 10,
                       workerId = 0\<rparr>],
           stdout = [(1, ''/root'')],
           exited = False\<rparr>"
  by code_simp

end
